theory Spec2Isabelle
  imports Complex_Main
begin

section \<open>Modelling conventions\<close>

text \<open>
  The Go program keeps one \<open>Game\<close> value holding four \<open>ScrollText\<close> lanes. Go's \<open>int\<close>
  fields are modelled as \<open>int\<close>, byte strings as \<open>string\<close> (a list of 8-bit characters,
  so \<open>length\<close> is Go's \<open>len\<close>), and \<open>float64\<close> fields as \<open>real\<close>: arithmetic is exact
  in the model, which agrees with the program wherever the operands and results are integers
  of small magnitude or dyadic fractions, as they are in every concrete scenario below.
  The canvas of a lane is an image owned by the rendering backend; the only thing the
  scroll logic reads from it is its width \<open>canvas.Bounds().Dx()\<close>, kept as \<open>canvasDx\<close>.
\<close>

section \<open>Control-code annotator\<close>

text \<open>
  \<open>parseControlCode(text, i)\<close>: the index is never negative at any call site (every caller
  starts at 0 and only increments), so it is a \<open>nat\<close>. The slice \<open>text[i : i+5]\<close> is only
  reached when \<open>i + 4 < len(text)\<close>, where it is \<open>take 5 (drop i text)\<close>.
\<close>

definition parseControlCode :: "string \<Rightarrow> nat \<Rightarrow> int \<times> bool" where
  "parseControlCode text i =
     (if i + 4 \<ge> length text \<or> text ! i \<noteq> CHR ''^'' then (0, False)
      else let tok = take 5 (drop i text) in
        if tok = ''^Cs0;'' then (0, True)
        else if tok = ''^Cs1;'' then (1, True)
        else if tok = ''^Cs2;'' then (2, True)
        else if tok = ''^Cs3;'' then (3, True)
        else (0, False))"

function countVisibleChars_loop :: "string \<Rightarrow> nat \<Rightarrow> int \<Rightarrow> int" where
  "countVisibleChars_loop text i count =
     (if i < length text then
        (if snd (parseControlCode text i) then countVisibleChars_loop text (i + 5) count
         else countVisibleChars_loop text (i + 1) (count + 1))
      else count)"
  by pat_completeness auto
termination
  by (relation "measure (\<lambda>(text, i, count). length text - i)") auto

declare countVisibleChars_loop.simps [simp del]

definition countVisibleChars :: "string \<Rightarrow> int" where
  "countVisibleChars text = countVisibleChars_loop text 0 0"

text \<open>
  \<open>rebuildText\<close>: the \<open>strings.Builder\<close> is the accumulator \<open>sb\<close>; \<open>WriteString\<close> and
  \<open>WriteByte\<close> append to it.
\<close>

function rebuildText_loop :: "string \<Rightarrow> int \<Rightarrow> bool \<Rightarrow> nat \<Rightarrow> string \<Rightarrow> string" where
  "rebuildText_loop text size' active i sb =
     (if i < length text then
        (case parseControlCode text i of
           (codeSize, True) \<Rightarrow>
             rebuildText_loop text size' (codeSize = size') (i + 5) (sb @ take 5 (drop i text))
         | (codeSize, False) \<Rightarrow>
             rebuildText_loop text size' active (i + 1)
               (sb @ [if active then text ! i else CHR '' '']))
      else sb)"
  by pat_completeness auto
termination
  by (relation "measure (\<lambda>(text, size', active, i, sb). length text - i)") auto

declare rebuildText_loop.simps [simp del]

record FontChange =
  position :: int
  newSize :: int

function preAnalyzeFontChanges_loop ::
    "string \<Rightarrow> nat \<Rightarrow> int \<Rightarrow> FontChange list \<Rightarrow> FontChange list \<times> int" where
  "preAnalyzeFontChanges_loop text i glyphPos changes =
     (if i < length text then
        (case parseControlCode text i of
           (size', True) \<Rightarrow>
             preAnalyzeFontChanges_loop text (i + 5) glyphPos
               (changes @ [\<lparr>position = glyphPos, newSize = size'\<rparr>])
         | (size', False) \<Rightarrow>
             preAnalyzeFontChanges_loop text (i + 1) (glyphPos + 1) changes)
      else (changes, glyphPos))"
  by pat_completeness auto
termination
  by (relation "measure (\<lambda>(text, i, glyphPos, changes). length text - i)") auto

declare preAnalyzeFontChanges_loop.simps [simp del]

definition rebuildText :: "string \<Rightarrow> int \<Rightarrow> bool \<Rightarrow> string" where
  \<comment> \<open>the receiver is only read for \<open>g.fullText\<close>, which is the first argument here\<close>
  "rebuildText fullText size' defaultActive = rebuildText_loop fullText size' defaultActive 0 []"

definition preAnalyzeFontChanges :: "string \<Rightarrow> FontChange list \<times> int" where
  \<comment> \<open>the pair is what the method stores in \<open>g.fontChanges\<close> and \<open>g.totalGlyphs\<close>\<close>
  "preAnalyzeFontChanges fullText = preAnalyzeFontChanges_loop fullText 0 0 []"

section \<open>Scroll animator and game state\<close>

record ScrollText =
  canvasDx :: int
  "text" :: string
  speed :: real
  offset :: real
  tileW :: int
  tileH :: int
  scaleX :: real
  scaleY :: real
  visibleChars :: int

text \<open>
  \<open>NewGame\<close> assigns all four lanes before any other method runs and nothing resets them,
  so the nil guards of \<open>Update\<close> and \<open>updateActSizeFromScroll\<close> always pass; the model holds
  the four lanes by value. Of the remaining fields only those that the scroll and timing
  logic reads or writes are kept (images, audio and the star field are left out).
\<close>

record Game =
  scrollText1 :: ScrollText
  scrollText2 :: ScrollText
  scrollText3 :: ScrollText
  scrollText4 :: ScrollText
  vbl :: int
  posY :: real
  posY2 :: real
  actSize :: int
  spinc :: real
  fullText :: string
  fontChanges :: "FontChange list"
  totalGlyphs :: int

definition newScrollText ::
    "int \<Rightarrow> int \<Rightarrow> int \<Rightarrow> real \<Rightarrow> real \<Rightarrow> string \<Rightarrow> ScrollText" where
  \<comment> \<open>the first argument is the width of the canvas passed in; \<open>speed\<close> keeps Go's zero value\<close>
  "newScrollText canvasWidth tw th sx sy t =
     \<lparr>canvasDx = canvasWidth, text = t, speed = 0, offset = real_of_int canvasWidth,
      tileW = tw, tileH = th, scaleX = sx, scaleY = sy,
      visibleChars = countVisibleChars t\<rparr>"

definition setSpeed :: "Game \<Rightarrow> Game" where
  "setSpeed g =
     (if actSize g = 0 then
        g\<lparr>scrollText1 := (scrollText1 g)\<lparr>speed := 8 * spinc g\<rparr>,
          scrollText2 := (scrollText2 g)\<lparr>speed := 16 * spinc g\<rparr>,
          scrollText3 := (scrollText3 g)\<lparr>speed := 32 * spinc g\<rparr>,
          scrollText4 := (scrollText4 g)\<lparr>speed := 64 * spinc g\<rparr>\<rparr>
      else if actSize g = 1 then
        g\<lparr>scrollText1 := (scrollText1 g)\<lparr>speed := 4 * spinc g\<rparr>,
          scrollText2 := (scrollText2 g)\<lparr>speed := 8 * spinc g\<rparr>,
          scrollText3 := (scrollText3 g)\<lparr>speed := 16 * spinc g\<rparr>,
          scrollText4 := (scrollText4 g)\<lparr>speed := 32 * spinc g\<rparr>\<rparr>
      else if actSize g = 2 then
        g\<lparr>scrollText1 := (scrollText1 g)\<lparr>speed := 2 * spinc g\<rparr>,
          scrollText2 := (scrollText2 g)\<lparr>speed := 4 * spinc g\<rparr>,
          scrollText3 := (scrollText3 g)\<lparr>speed := 8 * spinc g\<rparr>,
          scrollText4 := (scrollText4 g)\<lparr>speed := 16 * spinc g\<rparr>\<rparr>
      else if actSize g = 3 then
        g\<lparr>scrollText1 := (scrollText1 g)\<lparr>speed := 1 * spinc g\<rparr>,
          scrollText2 := (scrollText2 g)\<lparr>speed := 2 * spinc g\<rparr>,
          scrollText3 := (scrollText3 g)\<lparr>speed := 4 * spinc g\<rparr>,
          scrollText4 := (scrollText4 g)\<lparr>speed := 8 * spinc g\<rparr>\<rparr>
      else g)"

text \<open>
  \<open>draw\<close> and \<open>drawAt\<close> end by calling \<open>drawAtOffset\<close>, which clears the canvas and blits
  tiles; it writes no field of the \<open>ScrollText\<close>, so the state after the call is the state
  before it.
\<close>

definition draw :: "ScrollText \<Rightarrow> ScrollText" where
  "draw st =
     (let st = st\<lparr>offset := offset st - speed st\<rparr> in
      if visibleChars st = 0 then st
      else
        let scaledTileW = real_of_int (tileW st) * scaleX st;
            totalWidth = real_of_int (visibleChars st) * scaledTileW
        in if totalWidth > 0 \<and> offset st \<le> - totalWidth
           then st\<lparr>offset := offset st + (totalWidth + real_of_int (canvasDx st))\<rparr>
           else st)"

text \<open>
  \<open>drawAtOffset\<close> itself: the loop walks the lane's string and computes one placement
  \<open>(x, tileId)\<close> per visible character while \<open>x\<close> is left of the canvas's right edge. The
  model returns the placements in order. (The source skips the blit of a placement whose
  tile rectangle lies outside the font image; the placement still advances \<open>x\<close> and \<open>i\<close>.)
\<close>

definition tileIndex :: "char \<Rightarrow> int" where
  "tileIndex c =
     (if (of_char c :: int) < of_char CHR '' '' \<or> (of_char c :: int) > of_char CHR ''Z'' then 0
      else of_char c - of_char CHR '' '')"

function drawAtOffset_loop :: "ScrollText \<Rightarrow> real \<Rightarrow> nat \<Rightarrow> (real \<times> int) list \<Rightarrow> (real \<times> int) list" where
  "drawAtOffset_loop st x i drawn =
     (if x < real_of_int (canvasDx st) then
        (if i \<ge> length (text st) then drawn
         else if snd (parseControlCode (text st) i) then drawAtOffset_loop st x (i + 5) drawn
         else drawAtOffset_loop st (x + real_of_int (tileW st) * scaleX st) (i + 1)
                (drawn @ [(x, tileIndex (text st ! i))]))
      else drawn)"
  by pat_completeness auto
termination
  by (relation "measure (\<lambda>(st, x, i, drawn). length (text st) - i)") auto

declare drawAtOffset_loop.simps [simp del]

definition drawAtOffset :: "ScrollText \<Rightarrow> real \<Rightarrow> (real \<times> int) list" where
  "drawAtOffset st off = drawAtOffset_loop st off 0 []"

definition drawAt :: "ScrollText \<Rightarrow> real \<Rightarrow> ScrollText" where
  "drawAt st off =
     (let st = st\<lparr>offset := off\<rparr> in
      if visibleChars st = 0 then st else st)"

text \<open>The lookup loop of \<open>updateActSizeFromScroll\<close>, with its \<open>break\<close>.\<close>

fun fontChanges_loop :: "FontChange list \<Rightarrow> int \<Rightarrow> int \<Rightarrow> int" where
  "fontChanges_loop [] glyphPos size' = size'"
| "fontChanges_loop (change # rest) glyphPos size' =
     (if position change \<le> glyphPos then fontChanges_loop rest glyphPos (newSize change)
      else size')"

text \<open>
  \<open>int(math.Floor(x))\<close> and \<open>int(math.Ceil(x))\<close> are \<open>\<lfloor>x\<rfloor>\<close> and \<open>\<lceil>x\<rceil>\<close>; the division is
  only reached with a positive divisor.
\<close>

definition glyphPosOf :: "ScrollText \<Rightarrow> int \<Rightarrow> int" where
  \<comment> \<open>the arithmetic of \<open>updateActSizeFromScroll\<close> between its guards and its lookup loop\<close>
  "glyphPosOf st glyphs =
     (let tileW' = real_of_int (tileW st) * scaleX st;
          leftGlyph = \<lfloor>- offset st / tileW'\<rfloor>;
          leftGlyph = (if leftGlyph < 0 then 0 else leftGlyph);
          visibleGlyphs = \<lceil>real_of_int (canvasDx st) / tileW'\<rceil> + 1;
          glyphPos = leftGlyph + visibleGlyphs
      in if glyphPos \<ge> glyphs then glyphs - 1 else glyphPos)"

definition updateActSizeFromScroll :: "Game \<Rightarrow> Game" where
  "updateActSizeFromScroll g =
     (if totalGlyphs g = 0 then g
      else
        let st = (if actSize g = 1 then scrollText2 g
                  else if actSize g = 2 then scrollText3 g
                  else if actSize g = 3 then scrollText4 g
                  else scrollText1 g)
        in if real_of_int (tileW st) * scaleX st \<le> 0 then g
           else
             let glyphPos = glyphPosOf st (totalGlyphs g);
                 size' = fontChanges_loop (fontChanges g) glyphPos 0
             in if size' \<noteq> actSize g then setSpeed (g\<lparr>actSize := size'\<rparr>) else g)"

text \<open>
  \<open>Update\<close>: the two key states are the arguments. The star-field loop draws on the random
  generator and writes only \<open>infStars\<close>; it is left out.
\<close>

definition pressF1 :: "real \<Rightarrow> real" where
  "pressF1 s = (if s < 4 \<and> s \<ge> 1 then s + 1
                else if s = 0.5 then 1
                else if s = 0.25 then 0.5
                else s)"

definition pressF2 :: "real \<Rightarrow> real" where
  "pressF2 s = (if s > 1 then s - 1
                else if s = 0.5 then 0.25
                else if s = 1 then 0.5
                else s)"

definition Update :: "Game \<Rightarrow> bool \<Rightarrow> bool \<Rightarrow> Game" where
  "Update g keyF1 keyF2 =
     (let g = (if keyF1 then setSpeed (g\<lparr>spinc := pressF1 (spinc g)\<rparr>) else g);
          g = (if keyF2 then setSpeed (g\<lparr>spinc := pressF2 (spinc g)\<rparr>) else g);
          g = g\<lparr>vbl := vbl g + 1\<rparr>;
          g = (if vbl g mod 2 = 0 then
                 let g = g\<lparr>posY := posY g + 4\<rparr>;
                     g = (if posY g \<ge> 654 then g\<lparr>posY := 0\<rparr> else g);
                     g = g\<lparr>posY2 := posY2 g - 2\<rparr>
                 in (if posY2 g \<le> 0 then g\<lparr>posY2 := 200\<rparr> else g)
               else g);
          g = g\<lparr>scrollText1 := draw (scrollText1 g)\<rparr>;
          baseOffset = offset (scrollText1 g);
          baseWidth = real_of_int (canvasDx (scrollText1 g));
          g = g\<lparr>scrollText2 := drawAt (scrollText2 g)
                 (baseOffset * scaleX (scrollText2 g) + (1 - scaleX (scrollText2 g)) * baseWidth)\<rparr>;
          g = g\<lparr>scrollText3 := drawAt (scrollText3 g)
                 (baseOffset * scaleX (scrollText3 g) + (1 - scaleX (scrollText3 g)) * baseWidth)\<rparr>;
          g = g\<lparr>scrollText4 := drawAt (scrollText4 g)
                 (baseOffset * scaleX (scrollText4 g) + (1 - scaleX (scrollText4 g)) * baseWidth)\<rparr>
      in updateActSizeFromScroll g)"

text \<open>
  \<open>NewGame\<close>, for the master message that \<open>getFullText\<close> returns (its argument here): the
  four canvases are 640 pixels wide.
\<close>

definition NewGame :: "string \<Rightarrow> Game" where
  "NewGame msg =
     (let (changes, glyphs) = preAnalyzeFontChanges msg;
          smallText = rebuildText msg 0 True;
          normalText = rebuildText msg 1 False;
          mediumText = rebuildText msg 2 False;
          bigText = rebuildText msg 3 False
      in setSpeed
           \<lparr>scrollText1 = newScrollText 640 40 32 1.0 1.0 smallText,
            scrollText2 = newScrollText 640 40 32 2.0 2.0 normalText,
            scrollText3 = newScrollText 640 40 32 4.0 4.0 mediumText,
            scrollText4 = newScrollText 640 40 32 8.0 12.0 bigText,
            vbl = 0, posY = 0, posY2 = 200, actSize = 0, spinc = 1,
            fullText = msg, fontChanges = changes, totalGlyphs = glyphs\<rparr>)"

section \<open>Specification vocabulary\<close>

text \<open>
  The definitions of this section are not code of the program. They are the terms in which
  the properties are stated and proved; each is tied to the code by lemmas of the later
  sections.
\<close>

subsection \<open>Directive tokens and the annotator's walk\<close>

text \<open>
  \<open>directive k\<close> is the five-byte token \<open>^Cs\<close>, digit \<open>k\<close>, \<open>;\<close>.
  \<open>scan\<close> reads a string the way every loop of the program does: at each position it asks
  \<open>parseControlCode\<close>; a recognised directive is one item \<open>Dir k\<close> and its five bytes are
  skipped, any other byte is one item \<open>Ch c\<close>. The functions after it give, from the item
  list, what each loop accumulates: the visible count (\<open>countCh\<close>), the rebuilt string
  (\<open>render\<close>), the Font-Change Index (\<open>changesOf\<close>) and the string itself (\<open>unparse\<close>).
  \<open>blanked r s\<close> says that \<open>r\<close> is \<open>s\<close> with some bytes replaced by blanks.
\<close>

definition digit :: "int \<Rightarrow> char" where
  "digit k = (if k = 0 then CHR ''0'' else if k = 1 then CHR ''1''
              else if k = 2 then CHR ''2'' else CHR ''3'')"

definition directive :: "int \<Rightarrow> string" where
  "directive k = [CHR ''^'', CHR ''C'', CHR ''s'', digit k, CHR '';'']"

datatype item = Dir int | Ch char

function scan :: "string \<Rightarrow> item list" where
  "scan s =
     (if s = [] then []
      else (case parseControlCode s 0 of
              (k, True) \<Rightarrow> Dir k # scan (drop 5 s)
            | (k, False) \<Rightarrow> Ch (hd s) # scan (tl s)))"
  by pat_completeness auto

termination
  by (relation "measure length") auto

declare scan.simps [simp del]

fun countCh :: "item list \<Rightarrow> int" where
  "countCh [] = 0"
| "countCh (Dir k # xs) = countCh xs"
| "countCh (Ch c # xs) = 1 + countCh xs"

fun render :: "int \<Rightarrow> bool \<Rightarrow> item list \<Rightarrow> string" where
  "render sz a [] = []"
| "render sz a (Dir k # xs) = directive k @ render sz (k = sz) xs"
| "render sz a (Ch c # xs) = (if a then c else CHR '' '') # render sz a xs"

fun changesOf :: "int \<Rightarrow> item list \<Rightarrow> FontChange list" where
  "changesOf g [] = []"
| "changesOf g (Dir k # xs) = \<lparr>position = g, newSize = k\<rparr> # changesOf g xs"
| "changesOf g (Ch c # xs) = changesOf (g + 1) xs"

fun unparse :: "item list \<Rightarrow> string" where
  "unparse [] = []"
| "unparse (Dir k # xs) = directive k @ unparse xs"
| "unparse (Ch c # xs) = c # unparse xs"

definition blanked :: "string \<Rightarrow> string \<Rightarrow> bool" where
  "blanked r s = list_all2 (\<lambda>x y. x = y \<or> x = CHR '' '') r s"

subsection \<open>Bytes, glyphs and tiers\<close>

text \<open>
  \<open>byteKinds\<close> classifies every byte of a string: it lies inside a directive, or it is a
  visible character, read under the most recent directive before it (\<open>None\<close> before any).
  \<open>glyphBytes\<close> lists the byte offsets of the visible characters in order, so that its
  \<open>p\<close>-th entry is the byte of glyph position \<open>p\<close>; \<open>tiersOf\<close> lists the tier in force at
  each visible character, from a given starting tier.
\<close>

datatype byteKind = InDirective | Visible "int option"

fun classify :: "int option \<Rightarrow> item list \<Rightarrow> byteKind list" where
  "classify cur [] = []"
| "classify cur (Dir k # xs) = replicate 5 InDirective @ classify (Some k) xs"
| "classify cur (Ch c # xs) = Visible cur # classify cur xs"

definition byteKinds :: "string \<Rightarrow> byteKind list" where
  "byteKinds s = classify None (scan s)"

fun selected :: "int \<Rightarrow> bool \<Rightarrow> int option \<Rightarrow> bool" where
  "selected sz d None = d"
| "selected sz d (Some k) = (k = sz)"

fun rebuiltByte :: "int \<Rightarrow> bool \<Rightarrow> char \<Rightarrow> byteKind \<Rightarrow> char" where
  "rebuiltByte sz d c InDirective = c"
| "rebuiltByte sz d c (Visible cur) = (if selected sz d cur then c else CHR '' '')"

fun offsetsOf :: "nat \<Rightarrow> item list \<Rightarrow> nat list" where
  "offsetsOf b [] = []"
| "offsetsOf b (Dir k # xs) = offsetsOf (b + 5) xs"
| "offsetsOf b (Ch c # xs) = b # offsetsOf (b + 1) xs"

definition glyphBytes :: "string \<Rightarrow> nat list" where
  "glyphBytes s = offsetsOf 0 (scan s)"

fun tiersOf :: "int \<Rightarrow> item list \<Rightarrow> int list" where
  "tiersOf sz [] = []"
| "tiersOf sz (Dir k # xs) = tiersOf k xs"
| "tiersOf sz (Ch c # xs) = sz # tiersOf sz xs"

subsection \<open>Messages composed of literal segments and tokens\<close>

text \<open>
  A composed message is a list of literal segments and directive tokens; \<open>buildMessage\<close>
  concatenates them and \<open>literalLength\<close> adds up the lengths of the literal segments.
  \<open>directiveFree s\<close>: no directive is recognised at any offset of \<open>s\<close>. \<open>joinLiterals\<close>
  joins adjacent literal segments, leaving one literal segment per stretch of literal text.
\<close>

datatype segment = Literal string | Token int

fun segmentText :: "segment \<Rightarrow> string" where
  "segmentText (Literal s) = s"
| "segmentText (Token k) = directive k"

definition buildMessage :: "segment list \<Rightarrow> string" where
  "buildMessage segs = concat (map segmentText segs)"

fun literalLength :: "segment list \<Rightarrow> int" where
  "literalLength [] = 0"
| "literalLength (Literal s # segs) = int (length s) + literalLength segs"
| "literalLength (Token k # segs) = literalLength segs"

definition directiveFree :: "string \<Rightarrow> bool" where
  "directiveFree s = list_all (\<lambda>i. \<not> snd (parseControlCode s i)) [0..<length s]"

fun joinLiterals :: "segment list \<Rightarrow> segment list" where
  "joinLiterals [] = []"
| "joinLiterals (Token k # segs) = Token k # joinLiterals segs"
| "joinLiterals [Literal a] = [Literal a]"
| "joinLiterals (Literal a # Token k # segs) = Literal a # joinLiterals (Token k # segs)"
| "joinLiterals (Literal a # Literal b # segs) = joinLiterals (Literal (a @ b) # segs)"

subsection \<open>Speed multipliers, scroll geometry and the blocks of a tick\<close>

text \<open>
  \<open>multipliers\<close> is the set of values the speed multiplier can take: \<open>NewGame\<close> sets it to
  1 and only the two key rules of \<open>Update\<close> change it. \<open>totalWidthOf\<close> is the width of one
  pass of the text, and \<open>scenarioTier\<close> the lane of the wraparound scenario. \<open>afterKeys\<close>,
  \<open>tickCounters\<close> and \<open>scrollStep\<close> are the consecutive blocks of \<open>Update\<close> before the
  resolver is called.
\<close>

inductive_set multipliers :: "real set" where
  initial: "1 \<in> multipliers"
| faster: "s \<in> multipliers \<Longrightarrow> pressF1 s \<in> multipliers"
| slower: "s \<in> multipliers \<Longrightarrow> pressF2 s \<in> multipliers"

definition totalWidthOf :: "ScrollText \<Rightarrow> real" where
  \<comment> \<open>\<open>totalWidth\<close> as \<open>draw\<close> computes it\<close>
  "totalWidthOf st = real_of_int (visibleChars st) * (real_of_int (tileW st) * scaleX st)"

definition scenarioTier :: ScrollText where
  "scenarioTier =
     \<lparr>canvasDx = 640, text = ''ABCDEFGHIJ'', speed = 8, offset = 640, tileW = 40, tileH = 32,
      scaleX = 1, scaleY = 1, visibleChars = 10\<rparr>"

definition afterKeys :: "Game \<Rightarrow> bool \<Rightarrow> bool \<Rightarrow> Game" where
  \<comment> \<open>the state after the two key blocks at the head of \<open>Update\<close>\<close>
  "afterKeys g keyF1 keyF2 =
     (let g = (if keyF1 then setSpeed (g\<lparr>spinc := pressF1 (spinc g)\<rparr>) else g)
      in if keyF2 then setSpeed (g\<lparr>spinc := pressF2 (spinc g)\<rparr>) else g)"

definition tickCounters :: "Game \<Rightarrow> Game" where
  \<comment> \<open>the frame counter and raster positions block of \<open>Update\<close>\<close>
  "tickCounters g =
     (let g = g\<lparr>vbl := vbl g + 1\<rparr>
      in if vbl g mod 2 = 0 then
           let g = g\<lparr>posY := posY g + 4\<rparr>;
               g = (if posY g \<ge> 654 then g\<lparr>posY := 0\<rparr> else g);
               g = g\<lparr>posY2 := posY2 g - 2\<rparr>
           in (if posY2 g \<le> 0 then g\<lparr>posY2 := 200\<rparr> else g)
         else g)"

definition scrollStep :: "Game \<Rightarrow> Game" where
  \<comment> \<open>the scroll block of \<open>Update\<close>: the master advances, the followers are placed\<close>
  "scrollStep g =
     (let g = g\<lparr>scrollText1 := draw (scrollText1 g)\<rparr>;
          baseOffset = offset (scrollText1 g);
          baseWidth = real_of_int (canvasDx (scrollText1 g));
          g = g\<lparr>scrollText2 := drawAt (scrollText2 g)
                 (baseOffset * scaleX (scrollText2 g) + (1 - scaleX (scrollText2 g)) * baseWidth)\<rparr>;
          g = g\<lparr>scrollText3 := drawAt (scrollText3 g)
                 (baseOffset * scaleX (scrollText3 g) + (1 - scaleX (scrollText3 g)) * baseWidth)\<rparr>
      in g\<lparr>scrollText4 := drawAt (scrollText4 g)
                 (baseOffset * scaleX (scrollText4 g) + (1 - scaleX (scrollText4 g)) * baseWidth)\<rparr>)"

subsection \<open>The resolver\<close>

text \<open>
  \<open>lastEntryTier\<close> and \<open>resolverGlyphPos\<close> state the lookup rule and the glyph position
  formula with \<open>filter\<close>, \<open>last\<close>, \<open>min\<close> and \<open>max\<close>; \<open>activeLane\<close> is the lane the resolver
  reads. \<open>oscillatingMessage\<close> is a message with a switch to tier 1 at glyph 12;
  \<open>firstTick\<close> and \<open>secondTickInput\<close> are the game after the first tick on that message
  and the game handed to the resolver in the second tick.
\<close>

definition lastEntryTier :: "FontChange list \<Rightarrow> int \<Rightarrow> int" where
  \<comment> \<open>the spec's lookup rule: the tier of the last entry whose position is at most \<open>p\<close>,
      the default tier 0 when there is none\<close>
  "lastEntryTier cs p =
     (case filter (\<lambda>c. position c \<le> p) cs of [] \<Rightarrow> 0 | e # es \<Rightarrow> newSize (last (e # es)))"

definition activeLane :: "Game \<Rightarrow> ScrollText" where
  \<comment> \<open>the lane that \<open>updateActSizeFromScroll\<close> reads: selected by the stored active tier\<close>
  "activeLane g =
     (if actSize g = 1 then scrollText2 g
      else if actSize g = 2 then scrollText3 g
      else if actSize g = 3 then scrollText4 g
      else scrollText1 g)"

definition resolverGlyphPos :: "ScrollText \<Rightarrow> int \<Rightarrow> int" where
  \<comment> \<open>the spec's formula for the glyph position, for a lane and a total glyph count\<close>
  "resolverGlyphPos st glyphs =
     (let w = real_of_int (tileW st) * scaleX st;
          leftGlyph = max 0 \<lfloor>- offset st / w\<rfloor>;
          visibleGlyphs = \<lceil>real_of_int (canvasDx st) / w\<rceil> + 1
      in min (leftGlyph + visibleGlyphs) (glyphs - 1))"

definition oscillatingMessage :: string where
  \<comment> \<open>twelve characters, a switch to tier 1, six more characters\<close>
  "oscillatingMessage = ''ABCDEFGHIJKL^Cs1;MNOPQR''"

definition firstTick :: Game where
  \<comment> \<open>the game after the first tick on \<open>oscillatingMessage\<close>\<close>
  "firstTick =
     \<lparr>scrollText1 = \<lparr>canvasDx = 640, text = rebuildText oscillatingMessage 0 True, speed = 4,
                      offset = 632, tileW = 40, tileH = 32, scaleX = 1, scaleY = 1, visibleChars = 18\<rparr>,
      scrollText2 = \<lparr>canvasDx = 640, text = rebuildText oscillatingMessage 1 False, speed = 8,
                      offset = 624, tileW = 40, tileH = 32, scaleX = 2, scaleY = 2, visibleChars = 18\<rparr>,
      scrollText3 = \<lparr>canvasDx = 640, text = rebuildText oscillatingMessage 2 False, speed = 16,
                      offset = 608, tileW = 40, tileH = 32, scaleX = 4, scaleY = 4, visibleChars = 18\<rparr>,
      scrollText4 = \<lparr>canvasDx = 640, text = rebuildText oscillatingMessage 3 False, speed = 32,
                      offset = 576, tileW = 40, tileH = 32, scaleX = 8, scaleY = 12, visibleChars = 18\<rparr>,
      vbl = 1, posY = 0, posY2 = 200, actSize = 1, spinc = 1,
      fullText = oscillatingMessage, fontChanges = [\<lparr>position = 12, newSize = 1\<rparr>],
      totalGlyphs = 18\<rparr>"

definition secondTickInput :: Game where
  \<comment> \<open>the game in the second tick at the moment the resolver is called\<close>
  "secondTickInput =
     \<lparr>scrollText1 = \<lparr>canvasDx = 640, text = rebuildText oscillatingMessage 0 True, speed = 4,
                      offset = 628, tileW = 40, tileH = 32, scaleX = 1, scaleY = 1, visibleChars = 18\<rparr>,
      scrollText2 = \<lparr>canvasDx = 640, text = rebuildText oscillatingMessage 1 False, speed = 8,
                      offset = 616, tileW = 40, tileH = 32, scaleX = 2, scaleY = 2, visibleChars = 18\<rparr>,
      scrollText3 = \<lparr>canvasDx = 640, text = rebuildText oscillatingMessage 2 False, speed = 16,
                      offset = 592, tileW = 40, tileH = 32, scaleX = 4, scaleY = 4, visibleChars = 18\<rparr>,
      scrollText4 = \<lparr>canvasDx = 640, text = rebuildText oscillatingMessage 3 False, speed = 32,
                      offset = 544, tileW = 40, tileH = 32, scaleX = 8, scaleY = 12, visibleChars = 18\<rparr>,
      vbl = 2, posY = 4, posY2 = 198, actSize = 1, spinc = 1,
      fullText = oscillatingMessage, fontChanges = [\<lparr>position = 12, newSize = 1\<rparr>],
      totalGlyphs = 18\<rparr>"

section \<open>The annotator walk\<close>

lemma directive_simps:
  "directive 0 = ''^Cs0;''" "directive 1 = ''^Cs1;''" "directive 2 = ''^Cs2;''" "directive 3 = ''^Cs3;''"
  by (simp_all add: directive_def digit_def)

lemma length_directive [simp]: "length (directive k) = 5"
  by (simp add: directive_def)

lemma parse_drop: "parseControlCode t i = parseControlCode (drop i t) 0"
proof -
  have g: "(length t \<le> i + 4 \<or> t ! i \<noteq> CHR ''^'') =
           (length (drop i t) \<le> 0 + 4 \<or> drop i t ! 0 \<noteq> CHR ''^'')"
    by (cases "i + 4 < length t") auto
  show ?thesis
    unfolding parseControlCode_def by (simp only: g drop_0)
qed

lemma parse_head_True:
  "parseControlCode s 0 = (k, True) \<longleftrightarrow> k \<in> {0, 1, 2, 3} \<and> take 5 s = directive k"
proof
  assume "parseControlCode s 0 = (k, True)"
  then show "k \<in> {0, 1, 2, 3} \<and> take 5 s = directive k"
    by (auto simp: parseControlCode_def Let_def directive_simps split: if_splits)
next
  assume a: "k \<in> {0, 1, 2, 3} \<and> take 5 s = directive k"
  then have "length (take 5 s) = 5" by simp
  then have l: "4 < length s" by simp
  from a have "take 5 s ! 0 = CHR ''^''" by (simp add: directive_def)
  with l have h: "s ! 0 = CHR ''^''" by simp
  from a l h show "parseControlCode s 0 = (k, True)"
    by (auto simp: parseControlCode_def Let_def directive_simps)
qed

lemma parse_False: "snd (parseControlCode s i) = False \<Longrightarrow> parseControlCode s i = (0, False)"
  by (auto simp: parseControlCode_def Let_def split: if_splits)

lemma scan_Nil [simp]: "scan [] = []"
  by (simp add: scan.simps)

lemma scan_at:
  assumes "i < length t"
  shows "scan (drop i t) =
     (case parseControlCode t i of
        (k, True) \<Rightarrow> Dir k # scan (drop (i + 5) t)
      | (k, False) \<Rightarrow> Ch (t ! i) # scan (drop (i + 1) t))"
proof -
  from assms have ne: "drop i t \<noteq> []" by simp
  have d5: "drop 5 (drop i t) = drop (i + 5) t" by (simp add: add.commute)
  have d1: "tl (drop i t) = drop (i + 1) t" by (simp add: drop_Suc tl_drop)
  have h: "hd (drop i t) = t ! i" using assms by (simp add: hd_drop_conv_nth)
  show ?thesis
    by (subst scan.simps) (simp only: ne if_False parse_drop [of t i, symmetric] d5 d1 h)
qed

lemma countVisibleChars_loop_scan:
  "countVisibleChars_loop t i c = c + countCh (scan (drop i t))"
proof (induction t i c rule: countVisibleChars_loop.induct)
  case (1 t i c)
  show ?case
  proof (cases "i < length t")
    case False
    then show ?thesis by (simp add: countVisibleChars_loop.simps [of t i c])
  next
    case True
    obtain k b where p: "parseControlCode t i = (k, b)" by (cases "parseControlCode t i")
    show ?thesis
    proof (cases b)
      case True
      with 1(1) [OF \<open>i < length t\<close>] p \<open>i < length t\<close> show ?thesis
        by (simp add: countVisibleChars_loop.simps [of t i c] scan_at)
    next
      case False
      with 1(2) [OF \<open>i < length t\<close>] p \<open>i < length t\<close> show ?thesis
        by (simp add: countVisibleChars_loop.simps [of t i c] scan_at)
    qed
  qed
qed

lemma countVisibleChars_scan: "countVisibleChars t = countCh (scan t)"
  by (simp add: countVisibleChars_def countVisibleChars_loop_scan)

lemma parse_take5: "parseControlCode t i = (k, True) \<Longrightarrow> take 5 (drop i t) = directive k"
  using parse_head_True [of "drop i t" k] by (simp add: parse_drop [of t i])

lemma rebuildText_loop_scan:
  "rebuildText_loop t sz a i sb = sb @ render sz a (scan (drop i t))"
proof (induction t sz a i sb rule: rebuildText_loop.induct)
  case (1 t sz a i sb)
  show ?case
  proof (cases "i < length t")
    case False
    then show ?thesis by (simp add: rebuildText_loop.simps [of t sz a i sb])
  next
    case True
    obtain k b where p: "parseControlCode t i = (k, b)" by (cases "parseControlCode t i")
    show ?thesis
    proof (cases b)
      case True
      with p have pt: "parseControlCode t i = (k, True)" by simp
      from 1(1) [OF \<open>i < length t\<close> pt [symmetric] refl] pt \<open>i < length t\<close> show ?thesis
        by (simp add: rebuildText_loop.simps [of t sz a i sb] scan_at parse_take5)
    next
      case False
      with p have pf: "parseControlCode t i = (k, False)" by simp
      from 1(2) [OF \<open>i < length t\<close> pf [symmetric] refl] pf \<open>i < length t\<close> show ?thesis
        by (simp add: rebuildText_loop.simps [of t sz a i sb] scan_at)
    qed
  qed
qed

lemma rebuildText_scan: "rebuildText t sz d = render sz d (scan t)"
  by (simp add: rebuildText_def rebuildText_loop_scan)

lemma preAnalyzeFontChanges_loop_scan:
  "preAnalyzeFontChanges_loop t i g cs =
     (cs @ changesOf g (scan (drop i t)), g + countCh (scan (drop i t)))"
proof (induction t i g cs rule: preAnalyzeFontChanges_loop.induct)
  case (1 t i g cs)
  show ?case
  proof (cases "i < length t")
    case False
    then show ?thesis by (simp add: preAnalyzeFontChanges_loop.simps [of t i g cs])
  next
    case True
    obtain k b where p: "parseControlCode t i = (k, b)" by (cases "parseControlCode t i")
    show ?thesis
    proof (cases b)
      case True
      with p have pt: "parseControlCode t i = (k, True)" by simp
      from 1(1) [OF \<open>i < length t\<close> pt [symmetric] refl] pt \<open>i < length t\<close> show ?thesis
        by (simp add: preAnalyzeFontChanges_loop.simps [of t i g cs] scan_at)
    next
      case False
      with p have pf: "parseControlCode t i = (k, False)" by simp
      from 1(2) [OF \<open>i < length t\<close> pf [symmetric] refl] pf \<open>i < length t\<close> show ?thesis
        by (simp add: preAnalyzeFontChanges_loop.simps [of t i g cs] scan_at)
    qed
  qed
qed

lemma preAnalyzeFontChanges_scan:
  "preAnalyzeFontChanges t = (changesOf 0 (scan t), countCh (scan t))"
  by (simp add: preAnalyzeFontChanges_def preAnalyzeFontChanges_loop_scan)

lemma scan_Cons:
  "s \<noteq> [] \<Longrightarrow> scan s = (case parseControlCode s 0 of
        (k, True) \<Rightarrow> Dir k # scan (drop 5 s)
      | (k, False) \<Rightarrow> Ch (hd s) # scan (tl s))"
  by (subst scan.simps) simp

lemma parse_ne: "snd (parseControlCode s 0) \<Longrightarrow> s \<noteq> []"
  by (auto simp: parseControlCode_def)

lemma scan_directive:
  assumes "parseControlCode s 0 = (k, True)"
  shows "scan s = Dir k # scan (drop 5 s)"
proof -
  from assms have "s \<noteq> []" using parse_ne [of s] by simp
  with assms show ?thesis by (simp add: scan_Cons)
qed

lemma scan_visible:
  assumes "s \<noteq> []" "\<not> snd (parseControlCode s 0)"
  shows "scan s = Ch (hd s) # scan (tl s)"
proof -
  obtain k b where p: "parseControlCode s 0 = (k, b)" by (cases "parseControlCode s 0")
  with assms(2) have "parseControlCode s 0 = (k, False)" by simp
  with assms(1) show ?thesis by (simp add: scan_Cons)
qed

lemma unparse_scan: "unparse (scan s) = s"
proof (induction s rule: scan.induct)
  case (1 s)
  show ?case
  proof (cases "s = []")
    case True
    then show ?thesis by simp
  next
    case False
    obtain k b where p: "parseControlCode s 0 = (k, b)" by (cases "parseControlCode s 0")
    show ?thesis
    proof (cases b)
      case True
      with p have pt: "parseControlCode s 0 = (k, True)" by simp
      then have t5: "take 5 s = directive k" using parse_head_True [of s k] by simp
      have "unparse (scan s) = directive k @ unparse (scan (drop 5 s))"
        by (simp add: scan_directive [OF pt])
      also have "\<dots> = take 5 s @ drop 5 s"
        using 1(1) [OF False pt [symmetric] refl] t5 by simp
      finally show ?thesis by simp
    next
      case False
      with p have pf: "parseControlCode s 0 = (k, False)" by simp
      then have "unparse (scan s) = hd s # unparse (scan (tl s))"
        using \<open>s \<noteq> []\<close> by (simp add: scan_visible)
      also have "\<dots> = hd s # tl s"
        using 1(2) [OF \<open>s \<noteq> []\<close> pf [symmetric] refl] by simp
      finally show ?thesis using \<open>s \<noteq> []\<close> by simp
    qed
  qed
qed

lemma blanked_nospace:
  "list_all2 (\<lambda>x y. x = y \<or> x = CHR '' '') xs ys \<Longrightarrow> CHR '' '' \<notin> set xs \<Longrightarrow> xs = ys"
  by (induction xs ys rule: list_all2_induct) auto

lemma directive_nospace: "CHR '' '' \<notin> set (directive k)"
  by (simp add: directive_def digit_def)

lemma blanked_parse:
  assumes "blanked r s" "parseControlCode r 0 = (k, True)"
  shows "parseControlCode s 0 = (k, True)"
proof -
  from assms(2) have k: "k \<in> {0, 1, 2, 3}" and t: "take 5 r = directive k"
    using parse_head_True [of r k] by simp_all
  from assms(1) have "list_all2 (\<lambda>x y. x = y \<or> x = CHR '' '') (take 5 r) (take 5 s)"
    unfolding blanked_def by (rule list_all2_takeI)
  then have "take 5 r = take 5 s"
    using directive_nospace [of k] t by (intro blanked_nospace) simp_all
  with t k show ?thesis using parse_head_True [of s k] by simp
qed

lemma render_blanked: "blanked (render sz a xs) (unparse xs)"
proof (induction xs arbitrary: a)
  case Nil
  show ?case by (simp add: blanked_def)
next
  case (Cons x xs)
  show ?case
  proof (cases x)
    case (Dir k)
    have "list_all2 (\<lambda>x y. x = y \<or> x = CHR '' '') (directive k) (directive k)"
      by (simp add: list_all2_same)
    with Cons [of "k = sz"] Dir show ?thesis
      by (simp add: blanked_def list_all2_appendI)
  next
    case (Ch c)
    with Cons [of a] show ?thesis by (simp add: blanked_def)
  qed
qed

lemma length_render: "length (render sz a xs) = length (unparse xs)"
  using render_blanked [of sz a xs] by (simp add: blanked_def list_all2_lengthD)

lemma scan_directive_append:
  assumes "k \<in> {0, 1, 2, 3}"
  shows "scan (directive k @ r) = Dir k # scan r"
proof -
  have "parseControlCode (directive k @ r) 0 = (k, True)"
    using assms parse_head_True [of "directive k @ r" k] by simp
  from scan_directive [OF this] show ?thesis by simp
qed

lemma countCh_scan_render: "countCh (scan (render sz a (scan s))) = countCh (scan s)"
proof (induction s arbitrary: a rule: scan.induct)
  case (1 s)
  show ?case
  proof (cases "s = []")
    case True
    then show ?thesis by simp
  next
    case False
    obtain k b where p: "parseControlCode s 0 = (k, b)" by (cases "parseControlCode s 0")
    show ?thesis
    proof (cases b)
      case True
      with p have pt: "parseControlCode s 0 = (k, True)" by simp
      then have k: "k \<in> {0, 1, 2, 3}" using parse_head_True [of s k] by simp
      from 1(1) [OF False pt [symmetric] refl, of "k = sz"] show ?thesis
        by (simp add: scan_directive [OF pt] scan_directive_append [OF k])
    next
      case False
      with p have pf: "parseControlCode s 0 = (k, False)" by simp
      then have sv: "scan s = Ch (hd s) # scan (tl s)"
        using \<open>s \<noteq> []\<close> by (simp add: scan_visible)
      let ?r = "render sz a (scan s)"
      have rb: "blanked ?r s" using render_blanked [of sz a "scan s"] by (simp add: unparse_scan)
      have "\<not> snd (parseControlCode ?r 0)"
      proof
        assume "snd (parseControlCode ?r 0)"
        then obtain j where "parseControlCode ?r 0 = (j, True)"
          by (cases "parseControlCode ?r 0") auto
        from blanked_parse [OF rb this] pf show False by simp
      qed
      moreover have "?r \<noteq> []" by (simp add: sv)
      ultimately have "scan ?r = Ch (hd ?r) # scan (tl ?r)" by (rule scan_visible [rotated])
      then show ?thesis
        using 1(2) [OF \<open>s \<noteq> []\<close> pf [symmetric] refl, of a] by (simp add: sv)
    qed
  qed
qed

lemma countVisibleChars_rebuildText_aux:
  "countVisibleChars (rebuildText t sz d) = countVisibleChars t"
  by (simp add: countVisibleChars_scan rebuildText_scan countCh_scan_render)

lemma visibleChars_NewGame:
  "visibleChars (scrollText1 (NewGame msg)) = countVisibleChars (rebuildText msg 0 True)"
  "visibleChars (scrollText2 (NewGame msg)) = countVisibleChars (rebuildText msg 1 False)"
  "visibleChars (scrollText3 (NewGame msg)) = countVisibleChars (rebuildText msg 2 False)"
  "visibleChars (scrollText4 (NewGame msg)) = countVisibleChars (rebuildText msg 3 False)"
  by (simp_all add: NewGame_def setSpeed_def newScrollText_def Let_def split: prod.split)

section \<open>Visible-glyph count of the rebuilt strings\<close>

text \<open>
  Claim C10. For every tier id \<open>k\<close> and every default-active flag \<open>d\<close>, counting the visible
  characters of \<open>rebuildText(k, d)\<close> gives the count of the master message: blanking a
  character never creates a directive and the directives themselves are copied. Hence
  \<open>newScrollText\<close> stores the same \<open>visibleChars\<close> for every rebuilt string, and the four
  lanes that \<open>NewGame\<close> builds all carry the master's count.
\<close>

theorem rebuildText_keeps_visible_count:
  "countVisibleChars (rebuildText msg k d) = countVisibleChars msg
   \<and> visibleChars (newScrollText cw tw th sx sy (rebuildText msg k d)) = countVisibleChars msg
   \<and> visibleChars (scrollText1 (NewGame msg)) = countVisibleChars msg
   \<and> visibleChars (scrollText2 (NewGame msg)) = countVisibleChars msg
   \<and> visibleChars (scrollText3 (NewGame msg)) = countVisibleChars msg
   \<and> visibleChars (scrollText4 (NewGame msg)) = countVisibleChars msg"
  by (simp add: visibleChars_NewGame countVisibleChars_rebuildText_aux newScrollText_def)

theorem rebuildText_keeps_visible_count_witness:
  "countVisibleChars (rebuildText ''AB^Cs1;CD^Cs0;EF'' 1 False) = 6
   \<and> visibleChars (scrollText4 (NewGame ''AB^Cs1;CD^Cs0;EF'')) = 6"
proof -
  have "countVisibleChars ''AB^Cs1;CD^Cs0;EF'' = 6" by code_simp
  with rebuildText_keeps_visible_count [of "''AB^Cs1;CD^Cs0;EF''" 1 False]
  show ?thesis by simp
qed

lemma length_classify: "length (classify cur xs) = length (unparse xs)"
  by (induction cur xs rule: classify.induct) simp_all

lemma render_classify:
  "render sz (selected sz d cur) xs =
     map2 (rebuiltByte sz d) (unparse xs) (classify cur xs)"
proof (induction xs arbitrary: cur)
  case Nil
  show ?case by simp
next
  case (Cons x xs)
  show ?case
  proof (cases x)
    case (Dir k)
    have "map2 (rebuiltByte sz d) (directive k) (replicate 5 InDirective) = directive k"
      by (simp add: directive_def numeral_eq_Suc)
    with Cons [of "Some k"] Dir show ?thesis by simp
  next
    case (Ch c)
    with Cons [of cur] show ?thesis by simp
  qed
qed

lemma rebuildText_byteKinds:
  "rebuildText t sz d = map2 (rebuiltByte sz d) t (byteKinds t)"
  using render_classify [of sz d None "scan t"]
  by (simp add: rebuildText_scan byteKinds_def unparse_scan)

lemma length_byteKinds: "length (byteKinds t) = length t"
  by (simp add: byteKinds_def length_classify unparse_scan)

section \<open>The rebuilt tier strings\<close>

text \<open>
  Claim C7. For every tier id and default-active flag, \<open>rebuildText\<close> returns a string as
  long as the master message. Byte by byte: a byte inside a directive is copied; a visible
  character is copied when the most recent directive before it selected this tier (before
  any directive: when the default-active flag is set) and is a blank otherwise. Here
  \<open>byteKinds\<close> is the annotator's walk over the master message, recording for every byte
  whether it lies in a directive or is visible, and under which directive. For the message
  \<open>AB^Cs1;CD^Cs0;EF\<close> tier 0 with the flag set gives \<open>AB^Cs1;  ^Cs0;EF\<close>, and tier 1
  with the flag clear gives two blanks, \<open>^Cs1;CD^Cs0;\<close> and two blanks.
\<close>

theorem rebuildText_aligned:
  "length (rebuildText msg sz d) = length msg
   \<and> length (byteKinds msg) = length msg
   \<and> (\<forall>i < length msg.
        rebuildText msg sz d ! i =
          (case byteKinds msg ! i of
             InDirective \<Rightarrow> msg ! i
           | Visible None \<Rightarrow> (if d then msg ! i else CHR '' '')
           | Visible (Some k) \<Rightarrow> (if k = sz then msg ! i else CHR '' '')))
   \<and> rebuildText ''AB^Cs1;CD^Cs0;EF'' 0 True = ''AB^Cs1;  ^Cs0;EF''
   \<and> rebuildText ''AB^Cs1;CD^Cs0;EF'' 1 False = ''  ^Cs1;CD^Cs0;  ''"
proof (intro conjI allI impI)
  show "length (rebuildText msg sz d) = length msg"
    by (simp add: rebuildText_byteKinds length_byteKinds)
  show "length (byteKinds msg) = length msg" by (rule length_byteKinds)
  show "rebuildText ''AB^Cs1;CD^Cs0;EF'' 0 True = ''AB^Cs1;  ^Cs0;EF''" by code_simp
  show "rebuildText ''AB^Cs1;CD^Cs0;EF'' 1 False = ''  ^Cs1;CD^Cs0;  ''" by code_simp
next
  fix i assume "i < length msg"
  then have "rebuildText msg sz d ! i = rebuiltByte sz d (msg ! i) (byteKinds msg ! i)"
    by (simp add: rebuildText_byteKinds length_byteKinds)
  then show "rebuildText msg sz d ! i =
          (case byteKinds msg ! i of
             InDirective \<Rightarrow> msg ! i
           | Visible None \<Rightarrow> (if d then msg ! i else CHR '' '')
           | Visible (Some k) \<Rightarrow> (if k = sz then msg ! i else CHR '' ''))"
    by (simp split: byteKind.split option.split)
qed

theorem rebuildText_aligned_witness:
  "length (rebuildText ''AB^Cs1;CD^Cs0;EF'' 2 False) = 16
   \<and> rebuildText ''AB^Cs1;CD^Cs0;EF'' 2 False ! 3 = CHR ''C''
   \<and> rebuildText ''AB^Cs1;CD^Cs0;EF'' 2 False ! 7 = CHR '' ''"
proof -
  let ?m = "''AB^Cs1;CD^Cs0;EF''"
  have k3: "byteKinds ?m ! 3 = InDirective" by code_simp
  have k7: "byteKinds ?m ! 7 = Visible (Some 1)" by code_simp
  note w = rebuildText_aligned [where msg = ?m and sz = 2 and d = False]
  from w have l: "length (rebuildText ?m 2 False) = 16" by simp
  from w have "\<forall>i < length ?m. rebuildText ?m 2 False ! i =
          (case byteKinds ?m ! i of
             InDirective \<Rightarrow> ?m ! i
           | Visible None \<Rightarrow> (if False then ?m ! i else CHR '' '')
           | Visible (Some k) \<Rightarrow> (if k = 2 then ?m ! i else CHR '' ''))"
    by blast
  then have "rebuildText ?m 2 False ! 3 = (case byteKinds ?m ! 3 of
             InDirective \<Rightarrow> ?m ! 3
           | Visible None \<Rightarrow> (if False then ?m ! 3 else CHR '' '')
           | Visible (Some k) \<Rightarrow> (if k = 2 then ?m ! 3 else CHR '' ''))"
     and "rebuildText ?m 2 False ! 7 = (case byteKinds ?m ! 7 of
             InDirective \<Rightarrow> ?m ! 7
           | Visible None \<Rightarrow> (if False then ?m ! 7 else CHR '' '')
           | Visible (Some k) \<Rightarrow> (if k = 2 then ?m ! 7 else CHR '' ''))"
    by simp_all
  with k3 k7 l show ?thesis by simp
qed

lemma offsetsOf_shift: "offsetsOf (b + n) xs = map (\<lambda>x. x + n) (offsetsOf b xs)"
  by (induction b xs arbitrary: n rule: offsetsOf.induct)
     (simp_all add: add.assoc add.commute add.left_commute)

lemma length_offsetsOf: "int (length (offsetsOf b xs)) = countCh xs"
  by (induction b xs rule: offsetsOf.induct) simp_all

lemma length_tiersOf: "int (length (tiersOf sz xs)) = countCh xs"
  by (induction sz xs rule: tiersOf.induct) simp_all

lemma changesOf_ge: "c \<in> set (changesOf g xs) \<Longrightarrow> g \<le> position c"
  by (induction g xs rule: changesOf.induct) auto

lemma fontChanges_loop_before:
  "\<forall>c \<in> set cs. p < position c \<Longrightarrow> fontChanges_loop cs p sz = sz"
  by (cases cs) simp_all

lemma lookup_tiersOf:
  "p < length (tiersOf sz xs) \<Longrightarrow>
     fontChanges_loop (changesOf g xs) (g + int p) sz = tiersOf sz xs ! p"
proof (induction xs arbitrary: g p sz)
  case Nil
  then show ?case by simp
next
  case (Cons x xs)
  show ?case
  proof (cases x)
    case (Dir k)
    with Cons.prems have "p < length (tiersOf k xs)" by simp
    from Cons.IH [OF this, of g] Dir show ?thesis by simp
  next
    case (Ch c)
    show ?thesis
    proof (cases p)
      case 0
      have "\<forall>c \<in> set (changesOf (g + 1) xs). g < position c"
        using changesOf_ge [of _ "g + 1" xs] by fastforce
      from fontChanges_loop_before [OF this] 0 Ch show ?thesis by simp
    next
      case (Suc q)
      with Cons.prems Ch have "q < length (tiersOf sz xs)" by simp
      from Cons.IH [OF this, of "g + 1"] Suc Ch show ?thesis
        by (simp add: add.assoc add.commute add.left_commute)
    qed
  qed
qed

lemma offsetsOf_lt:
  "p < length (offsetsOf 0 xs) \<Longrightarrow> offsetsOf 0 xs ! p < length (unparse xs)"
proof (induction xs arbitrary: p)
  case Nil
  then show ?case by simp
next
  case (Cons x xs)
  show ?case
  proof (cases x)
    case (Dir k)
    have s: "offsetsOf 5 xs = map (\<lambda>x. x + 5) (offsetsOf 0 xs)"
      using offsetsOf_shift [of 0 5 xs] by simp
    with Cons.prems Dir have "p < length (offsetsOf 0 xs)" by simp
    from Cons.IH [OF this] this Dir s show ?thesis by simp
  next
    case (Ch c)
    have s: "offsetsOf 1 xs = map (\<lambda>x. x + 1) (offsetsOf 0 xs)"
      using offsetsOf_shift [of 0 1 xs] by simp
    show ?thesis
    proof (cases p)
      case 0
      with Ch show ?thesis by simp
    next
      case (Suc q)
      with Cons.prems Ch s have "q < length (offsetsOf 0 xs)" by simp
      from Cons.IH [OF this] this Ch s Suc show ?thesis by simp
    qed
  qed
qed

lemma render_at_glyph:
  "p < length (offsetsOf 0 xs) \<Longrightarrow>
     render k (sz = k) xs ! (offsetsOf 0 xs ! p) =
       (if tiersOf sz xs ! p = k then unparse xs ! (offsetsOf 0 xs ! p) else CHR '' '')"
proof (induction xs arbitrary: p sz)
  case Nil
  then show ?case by simp
next
  case (Cons x xs)
  show ?case
  proof (cases x)
    case (Dir j)
    have s: "offsetsOf 5 xs = map (\<lambda>x. x + 5) (offsetsOf 0 xs)"
      using offsetsOf_shift [of 0 5 xs] by simp
    with Cons.prems Dir have l: "p < length (offsetsOf 0 xs)" by simp
    have n: "(directive j @ ys) ! (m + 5) = ys ! m" for ys :: string and m
      by (simp add: nth_append)
    from Cons.IH [OF l, of j] l Dir s n show ?thesis by simp
  next
    case (Ch c)
    have s: "offsetsOf 1 xs = map (\<lambda>x. x + 1) (offsetsOf 0 xs)"
      using offsetsOf_shift [of 0 1 xs] by simp
    show ?thesis
    proof (cases p)
      case 0
      with Ch show ?thesis by simp
    next
      case (Suc q)
      with Cons.prems Ch s have l: "q < length (offsetsOf 0 xs)" by simp
      from Cons.IH [OF l, of sz] l Ch s Suc show ?thesis by simp
    qed
  qed
qed

lemma scan_Dir_range: "Dir k \<in> set (scan s) \<Longrightarrow> k \<in> {0, 1, 2, 3}"
proof (induction s rule: scan.induct)
  case (1 s)
  show ?case
  proof (cases "s = []")
    case True
    with 1(3) show ?thesis by simp
  next
    case False
    obtain j b where p: "parseControlCode s 0 = (j, b)" by (cases "parseControlCode s 0")
    show ?thesis
    proof (cases b)
      case True
      with p have pt: "parseControlCode s 0 = (j, True)" by simp
      then have j: "j \<in> {0, 1, 2, 3}" using parse_head_True [of s j] by simp
      from 1(3) have "k = j \<or> Dir k \<in> set (scan (drop 5 s))"
        by (simp add: scan_directive [OF pt])
      with j 1(1) [OF False pt [symmetric] refl] show ?thesis by blast
    next
      case False
      with p have pf: "parseControlCode s 0 = (j, False)" by simp
      with 1(3) \<open>s \<noteq> []\<close> have "Dir k \<in> set (scan (tl s))"
        by (simp add: scan_visible)
      with 1(2) [OF \<open>s \<noteq> []\<close> pf [symmetric] refl] show ?thesis by blast
    qed
  qed
qed

lemma tiersOf_range:
  "sz \<in> {0, 1, 2, 3} \<Longrightarrow> \<forall>k. Dir k \<in> set xs \<longrightarrow> k \<in> {0, 1, 2, 3} \<Longrightarrow>
     t \<in> set (tiersOf sz xs) \<Longrightarrow> t \<in> {0, 1, 2, 3}"
  by (induction sz xs rule: tiersOf.induct) auto

lemma changesOf_shift:
  "changesOf (g + n) xs = map (\<lambda>ch. ch\<lparr>position := position ch + n\<rparr>) (changesOf g xs)"
  by (induction g xs arbitrary: n rule: changesOf.induct)
     (simp_all add: add.assoc add.commute add.left_commute)

lemma drawAtOffset_loop_acc:
  "drawAtOffset_loop st x i drawn = drawn @ drawAtOffset_loop st x i []"
proof (induction "length (text st) - i" arbitrary: x i drawn rule: less_induct)
  case less
  show ?case
  proof (cases "x < real_of_int (canvasDx st) \<and> i < length (text st)")
    case False
    then show ?thesis
      by (auto simp: drawAtOffset_loop.simps [of st x i drawn] drawAtOffset_loop.simps [of st x i "[]"])
  next
    case True
    then have a: "x < real_of_int (canvasDx st)" and b: "\<not> length (text st) \<le> i" by simp_all
    show ?thesis
    proof (cases "snd (parseControlCode (text st) i)")
      case True
      have "length (text st) - (i + 5) < length (text st) - i" using b by simp
      from less [OF this, of x drawn] a b True show ?thesis
        by (simp add: drawAtOffset_loop.simps [of st x i drawn] drawAtOffset_loop.simps [of st x i "[]"])
    next
      case False
      let ?p = "(x, tileIndex (text st ! i))"
      let ?x = "x + real_of_int (tileW st) * scaleX st"
      have m: "length (text st) - (i + 1) < length (text st) - i" using b by simp
      have "drawAtOffset_loop st x i drawn = drawAtOffset_loop st ?x (i + 1) (drawn @ [?p])"
        using a b False by (simp add: drawAtOffset_loop.simps [of st x i drawn])
      also have "\<dots> = (drawn @ [?p]) @ drawAtOffset_loop st ?x (i + 1) []"
        by (rule less [OF m])
      also have "\<dots> = drawn @ [?p] @ drawAtOffset_loop st ?x (i + 1) []" by simp
      also have "[?p] @ drawAtOffset_loop st ?x (i + 1) [] = drawAtOffset_loop st ?x (i + 1) [?p]"
        by (rule less [OF m, symmetric])
      also have "\<dots> = drawAtOffset_loop st x i []"
        using a b False by (simp add: drawAtOffset_loop.simps [of st x i "[]"])
      finally show ?thesis .
    qed
  qed
qed

section \<open>What the annotator recognises\<close>

text \<open>
  Claim C9. \<open>parseControlCode(text, i)\<close> returns \<open>(k, true)\<close> exactly when a complete
  five-byte directive (sentinel \<open>^\<close>, tag \<open>Cs\<close>, one digit \<open>k\<close> from 0 to 3, terminator
  \<open>;\<close>) begins at byte offset \<open>i\<close>. In every other case it returns \<open>(0, false)\<close>: in
  particular when the byte at \<open>i\<close> is not the sentinel and when fewer than five bytes
  remain. Each of the four callers then treats the byte at \<open>i\<close> as one literal character:
  the counter's result is one more than the count of the text after that byte; the
  rebuilder emits that byte (or a blank when the tier is inactive) followed by the rebuild
  of the text after it; the index builder counts one more glyph, so every later transition
  lies one glyph further on; and the renderer places the byte's tile at the current \<open>x\<close>
  and goes on one tile width to the right with the next byte.
\<close>

theorem parseControlCode_exact:
  "(parseControlCode t i = (k, True)
      \<longleftrightarrow> k \<in> {0, 1, 2, 3} \<and> i + 5 \<le> length t \<and> take 5 (drop i t) = directive k)
   \<and> (\<not> snd (parseControlCode t i) \<longrightarrow> parseControlCode t i = (0, False))
   \<and> (t ! i \<noteq> CHR ''^'' \<or> length t < i + 5 \<longrightarrow> parseControlCode t i = (0, False))
   \<and> (i < length t \<and> \<not> snd (parseControlCode t i) \<longrightarrow>
        countVisibleChars_loop t i c = c + 1 + countVisibleChars (drop (i + 1) t)
      \<and> rebuildText_loop t sz a i sb =
          sb @ (if a then t ! i else CHR '' '') # rebuildText (drop (i + 1) t) sz a
      \<and> preAnalyzeFontChanges_loop t i g cs =
          (cs @ map (\<lambda>ch. ch\<lparr>position := position ch + (g + 1)\<rparr>)
                  (fst (preAnalyzeFontChanges (drop (i + 1) t))),
           g + 1 + snd (preAnalyzeFontChanges (drop (i + 1) t))))
   \<and> (i < length (text st) \<and> \<not> snd (parseControlCode (text st) i)
        \<and> x < real_of_int (canvasDx st) \<longrightarrow>
        drawAtOffset_loop st x i drawn =
          drawn @ (x, tileIndex (text st ! i))
                  # drawAtOffset_loop st (x + real_of_int (tileW st) * scaleX st) (i + 1) [])"
proof (intro conjI impI)
  have "take 5 (drop i t) = directive k \<Longrightarrow> i + 5 \<le> length t"
  proof -
    assume "take 5 (drop i t) = directive k"
    then have "length (take 5 (drop i t)) = 5" by simp
    then show ?thesis by simp
  qed
  then show "parseControlCode t i = (k, True)
      \<longleftrightarrow> k \<in> {0, 1, 2, 3} \<and> i + 5 \<le> length t \<and> take 5 (drop i t) = directive k"
    using parse_head_True [of "drop i t" k] parse_drop [of t i] by auto
next
  assume "\<not> snd (parseControlCode t i)"
  then show "parseControlCode t i = (0, False)" by (simp add: parse_False)
next
  assume "t ! i \<noteq> CHR ''^'' \<or> length t < i + 5"
  then show "parseControlCode t i = (0, False)" by (auto simp: parseControlCode_def)
next
  assume a: "i < length t \<and> \<not> snd (parseControlCode t i)"
  then have p: "parseControlCode t i = (0, False)" by (simp add: parse_False)
  have s: "scan (drop i t) = Ch (t ! i) # scan (drop (i + 1) t)"
    using a p by (simp add: scan_at)
  show "countVisibleChars_loop t i c = c + 1 + countVisibleChars (drop (i + 1) t)"
    by (simp add: countVisibleChars_loop_scan s countVisibleChars_scan)
  show "rebuildText_loop t sz a i sb =
          sb @ (if a then t ! i else CHR '' '') # rebuildText (drop (i + 1) t) sz a"
    by (simp add: rebuildText_loop_scan s rebuildText_scan)
  have "changesOf (0 + (g + 1)) xs =
          map (\<lambda>ch. ch\<lparr>position := position ch + (g + 1)\<rparr>) (changesOf 0 xs)" for xs
    by (rule changesOf_shift)
  then show "preAnalyzeFontChanges_loop t i g cs =
          (cs @ map (\<lambda>ch. ch\<lparr>position := position ch + (g + 1)\<rparr>)
                  (fst (preAnalyzeFontChanges (drop (i + 1) t))),
           g + 1 + snd (preAnalyzeFontChanges (drop (i + 1) t)))"
    by (simp add: preAnalyzeFontChanges_loop_scan s preAnalyzeFontChanges_scan)
next
  assume a: "i < length (text st) \<and> \<not> snd (parseControlCode (text st) i)
        \<and> x < real_of_int (canvasDx st)"
  let ?p = "(x, tileIndex (text st ! i))"
  let ?x = "x + real_of_int (tileW st) * scaleX st"
  have "drawAtOffset_loop st x i drawn = drawAtOffset_loop st ?x (i + 1) (drawn @ [?p])"
    using a by (simp add: drawAtOffset_loop.simps [of st x i drawn])
  also have "\<dots> = (drawn @ [?p]) @ drawAtOffset_loop st ?x (i + 1) []"
    by (rule drawAtOffset_loop_acc)
  finally show "drawAtOffset_loop st x i drawn =
          drawn @ ?p # drawAtOffset_loop st ?x (i + 1) []" by simp
qed

theorem parseControlCode_exact_witness:
  "parseControlCode ''AB^Cs1;CD'' 2 = (1, True)
   \<and> parseControlCode ''A^Cs4;'' 1 = (0, False)
   \<and> parseControlCode ''AB^Cs1'' 2 = (0, False)
   \<and> countVisibleChars_loop ''A^Cs4;'' 1 1 = 6
   \<and> rebuildText_loop ''A^Cs4;'' 0 True 1 ''A'' = ''A^Cs4;''
   \<and> preAnalyzeFontChanges_loop ''A^Cs4;^Cs2;B'' 1 1 [] = ([\<lparr>position = 6, newSize = 2\<rparr>], 7)
   \<and> drawAtOffset_loop (newScrollText 640 40 32 1 1 ''A^Cs4;'') 520 1 [(480, 33)] =
         [(480, 33), (520, 0), (560, 35), (600, 0)]"
proof -
  let ?st = "newScrollText 640 40 32 1 1 ''A^Cs4;''"
  have a: "parseControlCode ''AB^Cs1;CD'' 2 = (1, True)"
    using parseControlCode_exact [where t = "''AB^Cs1;CD''" and i = 2 and k = 1]
    by (simp add: directive_def digit_def)
  have n: "1 < length ''A^Cs4;'' \<and> \<not> snd (parseControlCode ''A^Cs4;'' 1)"
    by (simp add: parseControlCode_def)
  have n2: "1 < length ''A^Cs4;^Cs2;B'' \<and> \<not> snd (parseControlCode ''A^Cs4;^Cs2;B'' 1)"
    by (simp add: parseControlCode_def)
  note w = parseControlCode_exact [where t = "''A^Cs4;''" and i = 1 and c = 1
      and sz = 0 and a = True and sb = "''A''"]
  note w2 = parseControlCode_exact [where t = "''A^Cs4;^Cs2;B''" and i = 1 and g = 1 and cs = "[]"]
  note w3 = parseControlCode_exact [where st = ?st and i = 1 and x = 520 and drawn = "[(480, 33)]"]
  from n have b: "parseControlCode ''A^Cs4;'' 1 = (0, False)"
    using w [THEN conjunct2, THEN conjunct1] by blast
  have r1: "countVisibleChars ''Cs4;'' = 4" by code_simp
  have r2: "rebuildText ''Cs4;'' 0 True = ''Cs4;''" by code_simp
  have r3: "preAnalyzeFontChanges ''Cs4;^Cs2;B'' = ([\<lparr>position = 4, newSize = 2\<rparr>], 5)"
    by code_simp
  from n have d: "countVisibleChars_loop ''A^Cs4;'' 1 1 = 6"
    using w [THEN conjunct2, THEN conjunct2, THEN conjunct2, THEN conjunct1] r1 by simp
  from n have e: "rebuildText_loop ''A^Cs4;'' 0 True 1 ''A'' = ''A^Cs4;''"
    using w [THEN conjunct2, THEN conjunct2, THEN conjunct2, THEN conjunct1] r2 by simp
  from n2 have f: "preAnalyzeFontChanges_loop ''A^Cs4;^Cs2;B'' 1 1 [] =
      ([\<lparr>position = 6, newSize = 2\<rparr>], 7)"
    using w2 [THEN conjunct2, THEN conjunct2, THEN conjunct2, THEN conjunct1] r3 by simp
  have c: "parseControlCode ''AB^Cs1'' 2 = (0, False)"
    using parseControlCode_exact [where t = "''AB^Cs1''" and i = 2,
        THEN conjunct2, THEN conjunct2, THEN conjunct1] by simp
  have t: "text ?st = ''A^Cs4;''" "canvasDx ?st = 640" "tileW ?st = 40" "scaleX ?st = 1"
    by (simp_all add: newScrollText_def)
  have r4: "drawAtOffset_loop ?st 560 2 [] = [(560, 35), (600, 0)]"
    by (simp add: drawAtOffset_loop.simps [of ?st] t parseControlCode_def tileIndex_def)
  have h: "drawAtOffset_loop ?st 520 1 [(480, 33)] =
         [(480, 33), (520, 0), (560, 35), (600, 0)]"
    using w3 [THEN conjunct2, THEN conjunct2, THEN conjunct2, THEN conjunct2] n t
      r4 [unfolded numeral_2_eq_2]
    by (simp add: tileIndex_def)
  from a b c d e f h show ?thesis by blast
qed

lemma parse_take_prefix:
  assumes "snd (parseControlCode (take n s) 0)"
  shows "snd (parseControlCode s 0)"
proof -
  from assms obtain k where p: "parseControlCode (take n s) 0 = (k, True)"
    by (cases "parseControlCode (take n s) 0") auto
  then have k: "k \<in> {0, 1, 2, 3}" and t: "take 5 (take n s) = directive k"
    using parse_head_True [of "take n s" k] by simp_all
  from t have "length (take 5 (take n s)) = 5" by simp
  then have "5 \<le> n" by simp
  then have "take 5 (take n s) = take 5 s" by (simp add: min_def)
  with t k have "parseControlCode s 0 = (k, True)" using parse_head_True [of s k] by simp
  then show ?thesis by simp
qed

lemma glyph_offset_walk:
  "p < length (offsetsOf 0 (scan s)) \<Longrightarrow>
     \<not> snd (parseControlCode s (offsetsOf 0 (scan s) ! p))
   \<and> countCh (scan (take (offsetsOf 0 (scan s) ! p) s)) = int p"
proof (induction s arbitrary: p rule: scan.induct)
  case (1 s)
  show ?case
  proof (cases "s = []")
    case True
    with 1(3) show ?thesis by simp
  next
    case False
    obtain k b where pc: "parseControlCode s 0 = (k, b)" by (cases "parseControlCode s 0")
    show ?thesis
    proof (cases b)
      case True
      with pc have pt: "parseControlCode s 0 = (k, True)" by simp
      then have k: "k \<in> {0, 1, 2, 3}" and t5: "take 5 s = directive k"
        using parse_head_True [of s k] by simp_all
      let ?r = "drop 5 s"
      have sc: "scan s = Dir k # scan ?r" by (rule scan_directive [OF pt])
      have sh: "offsetsOf 5 (scan ?r) = map (\<lambda>x. x + 5) (offsetsOf 0 (scan ?r))"
        using offsetsOf_shift [of 0 5 "scan ?r"] by simp
      from 1(3) have pl: "p < length (offsetsOf 0 (scan ?r))" by (simp add: sc sh)
      let ?b = "offsetsOf 0 (scan ?r) ! p"
      have b: "offsetsOf 0 (scan s) ! p = ?b + 5" using pl by (simp add: sc sh)
      note ih = 1(1) [OF False pt [symmetric] refl pl]
      have "parseControlCode s (?b + 5) = parseControlCode ?r ?b"
        using parse_drop [of s "?b + 5"] parse_drop [of ?r ?b] by (simp add: add.commute)
      with ih have a: "\<not> snd (parseControlCode s (?b + 5))" by simp
      have "take (?b + 5) s = take 5 s @ take ?b ?r"
        by (metis add.commute take_add)
      then have "scan (take (?b + 5) s) = Dir k # scan (take ?b ?r)"
        by (simp add: t5 scan_directive_append [OF k])
      with ih have c: "countCh (scan (take (?b + 5) s)) = int p" by simp
      from a c show ?thesis by (simp only: b) simp
    next
      case False
      with pc have pf: "parseControlCode s 0 = (k, False)" by simp
      let ?r = "tl s"
      have sc: "scan s = Ch (hd s) # scan ?r"
        using \<open>s \<noteq> []\<close> pf by (simp add: scan_visible)
      have sh: "offsetsOf (Suc 0) (scan ?r) = map Suc (offsetsOf 0 (scan ?r))"
        using offsetsOf_shift [of 0 1 "scan ?r"] by simp
      show ?thesis
      proof (cases p)
        case 0
        with pf sc show ?thesis by simp
      next
        case (Suc q)
        with 1(3) have ql: "q < length (offsetsOf 0 (scan ?r))" by (simp add: sc sh)
        let ?b = "offsetsOf 0 (scan ?r) ! q"
        have b: "offsetsOf 0 (scan s) ! p = Suc ?b" using ql Suc by (simp add: sc sh)
        note ih = 1(2) [OF \<open>s \<noteq> []\<close> pf [symmetric] refl ql]
        have "parseControlCode s (Suc ?b) = parseControlCode ?r ?b"
          using parse_drop [of s "Suc ?b"] parse_drop [of ?r ?b] by (simp add: drop_Suc)
        with ih have a: "\<not> snd (parseControlCode s (Suc ?b))" by simp
        have tk: "take (Suc ?b) s = hd s # take ?b ?r"
          using \<open>s \<noteq> []\<close> by (cases s) simp_all
        have "\<not> snd (parseControlCode (take (Suc ?b) s) 0)"
          using parse_take_prefix [of "Suc ?b" s] pf by auto
        then have "scan (take (Suc ?b) s) = Ch (hd s) # scan (take ?b ?r)"
          using scan_visible [of "take (Suc ?b) s"] by (simp add: tk)
        with ih have c: "countCh (scan (take (Suc ?b) s)) = int p" by (simp add: Suc)
        from a c show ?thesis by (simp only: b) simp
      qed
    qed
  qed
qed

lemma glyphBytes_walk:
  "p < length (glyphBytes msg) \<Longrightarrow>
     \<not> snd (parseControlCode msg (glyphBytes msg ! p))
   \<and> countVisibleChars (take (glyphBytes msg ! p) msg) = int p"
  using glyph_offset_walk [of p msg] by (simp add: glyphBytes_def countVisibleChars_scan)

section \<open>Partition of the glyphs among the four tiers\<close>

text \<open>
  Claim C2, as stated: at every glyph position exactly one of the four rebuilt strings
  \<open>rebuildText(0,true)\<close>, \<open>rebuildText(1,false)\<close>, \<open>rebuildText(2,false)\<close>,
  \<open>rebuildText(3,false)\<close> has a non-blank character. This fails where the master's own
  character is a blank: in \<open>A B\<close> the glyph at position 1 is a blank in all four strings.
\<close>

theorem rebuild_partition_blank_glyph:
  "preAnalyzeFontChanges ''A B'' = ([], 3)
   \<and> glyphBytes ''A B'' ! 1 = 1
   \<and> rebuildText ''A B'' 0 True ! (glyphBytes ''A B'' ! 1) = CHR '' ''
   \<and> rebuildText ''A B'' 1 False ! (glyphBytes ''A B'' ! 1) = CHR '' ''
   \<and> rebuildText ''A B'' 2 False ! (glyphBytes ''A B'' ! 1) = CHR '' ''
   \<and> rebuildText ''A B'' 3 False ! (glyphBytes ''A B'' ! 1) = CHR '' ''"
  by code_simp

text \<open>
  Claim C2, amended. Let \<open>p\<close> be a glyph position of the master message, \<open>b\<close> the byte
  offset of that glyph (\<open>glyphBytes\<close> lists, in order, the byte offsets that the annotator's
  walk treats as visible characters: no directive starts at \<open>b\<close>, and \<open>countVisibleChars\<close>
  counts exactly \<open>p\<close> visible characters before it) and \<open>tier\<close> the result of the
  resolver's lookup loop on the Font-Change Index at \<open>p\<close>. Then \<open>tier\<close> is one of 0 to 3,
  the rebuilt string of
  that tier has the master's character at \<open>b\<close>, and the other three have a blank there.
  So exactly one tier is non-blank there whenever the master's character is not itself a
  blank. Before any directive the lookup gives tier 0, the tier built with the
  default-active flag set.
\<close>

theorem rebuild_partition:
  assumes "preAnalyzeFontChanges msg = (cs, n)" and "int p < n"
  shows "(let b = glyphBytes msg ! p; tier = fontChanges_loop cs (int p) 0 in
            int (length (glyphBytes msg)) = n \<and> b < length msg
          \<and> \<not> snd (parseControlCode msg b) \<and> countVisibleChars (take b msg) = int p
          \<and> tier \<in> {0, 1, 2, 3}
          \<and> rebuildText msg 0 True ! b = (if tier = 0 then msg ! b else CHR '' '')
          \<and> rebuildText msg 1 False ! b = (if tier = 1 then msg ! b else CHR '' '')
          \<and> rebuildText msg 2 False ! b = (if tier = 2 then msg ! b else CHR '' '')
          \<and> rebuildText msg 3 False ! b = (if tier = 3 then msg ! b else CHR '' '')
          \<and> ((\<forall>c \<in> set cs. int p < position c) \<longrightarrow> tier = 0))"
proof -
  let ?xs = "scan msg"
  from assms(1) have cs: "cs = changesOf 0 ?xs" and n: "n = countCh ?xs"
    by (simp_all add: preAnalyzeFontChanges_scan)
  have len: "int (length (glyphBytes msg)) = n"
    by (simp add: glyphBytes_def length_offsetsOf n)
  with assms(2) have p: "p < length (offsetsOf 0 ?xs)" by (simp add: glyphBytes_def)
  have pt: "p < length (tiersOf 0 ?xs)"
    using assms(2) n length_tiersOf [of 0 ?xs] by simp
  have tier: "fontChanges_loop cs (int p) 0 = tiersOf 0 ?xs ! p"
    using lookup_tiersOf [OF pt, of 0] cs by simp
  have b: "glyphBytes msg ! p < length msg"
    using offsetsOf_lt [OF p] by (simp add: glyphBytes_def unparse_scan)
  have "tiersOf 0 ?xs ! p \<in> set (tiersOf 0 ?xs)" using pt by simp
  then have range: "tiersOf 0 ?xs ! p \<in> {0, 1, 2, 3}"
    using tiersOf_range [of 0 ?xs] scan_Dir_range [of _ msg] by blast
  have r: "render k (0 = k) ?xs ! (glyphBytes msg ! p) =
      (if tiersOf 0 ?xs ! p = k then msg ! (glyphBytes msg ! p) else CHR '' '')" for k
    using render_at_glyph [OF p, of k 0] by (simp add: glyphBytes_def unparse_scan)
  have r0: "rebuildText msg 0 True ! (glyphBytes msg ! p) =
      (if tiersOf 0 ?xs ! p = 0 then msg ! (glyphBytes msg ! p) else CHR '' '')"
    using r [of 0] by (simp add: rebuildText_scan)
  have r1: "rebuildText msg 1 False ! (glyphBytes msg ! p) =
      (if tiersOf 0 ?xs ! p = 1 then msg ! (glyphBytes msg ! p) else CHR '' '')"
    using r [of 1] by (simp add: rebuildText_scan)
  have r2: "rebuildText msg 2 False ! (glyphBytes msg ! p) =
      (if tiersOf 0 ?xs ! p = 2 then msg ! (glyphBytes msg ! p) else CHR '' '')"
    using r [of 2] by (simp add: rebuildText_scan)
  have r3: "rebuildText msg 3 False ! (glyphBytes msg ! p) =
      (if tiersOf 0 ?xs ! p = 3 then msg ! (glyphBytes msg ! p) else CHR '' '')"
    using r [of 3] by (simp add: rebuildText_scan)
  have before: "(\<forall>c \<in> set cs. int p < position c) \<longrightarrow> fontChanges_loop cs (int p) 0 = 0"
    using fontChanges_loop_before [of cs "int p" 0] by blast
  have pg: "p < length (glyphBytes msg)" using p by (simp add: glyphBytes_def)
  note walk = glyphBytes_walk [OF pg]
  show ?thesis
    unfolding Let_def tier using len b walk range r0 r1 r2 r3 before [unfolded tier] by blast
qed

theorem rebuild_partition_witness:
  "rebuildText ''AB^Cs1;CD^Cs0;EF'' 0 True ! 7 = CHR '' ''
   \<and> rebuildText ''AB^Cs1;CD^Cs0;EF'' 1 False ! 7 = CHR ''C''
   \<and> rebuildText ''AB^Cs1;CD^Cs0;EF'' 2 False ! 7 = CHR '' ''
   \<and> rebuildText ''AB^Cs1;CD^Cs0;EF'' 3 False ! 7 = CHR '' ''"
proof -
  let ?m = "''AB^Cs1;CD^Cs0;EF''"
  let ?cs = "[\<lparr>position = 2, newSize = 1\<rparr>, \<lparr>position = 4, newSize = 0\<rparr>]"
  have a: "preAnalyzeFontChanges ?m = (?cs, 6)" by code_simp
  have l: "int 2 < 6" by simp
  have b: "glyphBytes ?m ! 2 = 7" by code_simp
  have t: "fontChanges_loop ?cs (int 2) 0 = 1" by simp
  from rebuild_partition [OF a l] show ?thesis
    unfolding Let_def b t by simp
qed

lemma directiveFree_iff: "directiveFree s \<longleftrightarrow> (\<forall>i < length s. \<not> snd (parseControlCode s i))"
  by (auto simp: directiveFree_def list_all_iff)

lemma directiveFree_tl: "directiveFree (c # l) \<Longrightarrow> directiveFree l"
proof -
  assume a: "directiveFree (c # l)"
  have "parseControlCode l i = parseControlCode (c # l) (Suc i)" for i
    using parse_drop [of l i] parse_drop [of "c # l" "Suc i"] by simp
  with a show ?thesis by (auto simp: directiveFree_iff)
qed

lemma directive_tail_not_sentinel:
  "n \<in> {1, 2, 3, 4} \<Longrightarrow> directive j ! n \<noteq> CHR ''^''"
  by (auto simp: directive_def digit_def)

lemma literal_head_not_directive:
  assumes "lit \<noteq> []" "directiveFree lit" "rest = [] \<or> (\<exists>k r. rest = directive k @ r)"
  shows "\<not> snd (parseControlCode (lit @ rest) 0)"
proof
  assume "snd (parseControlCode (lit @ rest) 0)"
  then obtain j where "parseControlCode (lit @ rest) 0 = (j, True)"
    by (cases "parseControlCode (lit @ rest) 0") auto
  then have j: "j \<in> {0, 1, 2, 3}" and t: "take 5 (lit @ rest) = directive j"
    using parse_head_True [of "lit @ rest" j] by simp_all
  show False
  proof (cases "5 \<le> length lit")
    case True
    with t have "take 5 lit = directive j" by simp
    with j have "parseControlCode lit 0 = (j, True)" using parse_head_True [of lit j] by simp
    with assms(1,2) show False by (auto simp: directiveFree_iff)
  next
    case False
    let ?n = "length lit"
    from assms(1) have "0 < ?n" by simp
    with False have "?n = 1 \<or> ?n = 2 \<or> ?n = 3 \<or> ?n = 4" by arith
    then have n: "?n \<in> {1, 2, 3, 4}" by blast
    from t have "length (take 5 (lit @ rest)) = 5" by simp
    with False have "rest \<noteq> []" by auto
    with assms(3) obtain k r where r: "rest = directive k @ r" by blast
    have "?n < 5" using False by simp
    then have "take 5 (lit @ rest) ! ?n = (lit @ rest) ! ?n" by (rule nth_take)
    also have "\<dots> = CHR ''^''" by (simp add: r nth_append directive_def)
    finally have "directive j ! ?n = CHR ''^''" using t by simp
    with directive_tail_not_sentinel [OF n] show False by simp
  qed
qed

lemma scan_literal:
  "directiveFree lit \<Longrightarrow> rest = [] \<or> (\<exists>k r. rest = directive k @ r) \<Longrightarrow>
     scan (lit @ rest) = map Ch lit @ scan rest"
proof (induction lit)
  case Nil
  show ?case by simp
next
  case (Cons c l)
  have "\<not> snd (parseControlCode ((c # l) @ rest) 0)"
    by (rule literal_head_not_directive [OF _ Cons.prems]) simp
  then have "scan ((c # l) @ rest) = Ch c # scan (l @ rest)"
    using scan_visible [of "(c # l) @ rest"] by simp
  with Cons.IH [OF directiveFree_tl [OF Cons.prems(1)] Cons.prems(2)] show ?case by simp
qed

lemma countCh_map_Ch: "countCh (map Ch s @ xs) = int (length s) + countCh xs"
  by (induction s) simp_all

lemma count_built:
  "\<forall>k. Token k \<in> set segs \<longrightarrow> k \<in> {0, 1, 2, 3} \<Longrightarrow>
   \<forall>s. Literal s \<in> set (joinLiterals segs) \<longrightarrow> directiveFree s \<Longrightarrow>
   countCh (scan (buildMessage segs)) = literalLength segs"
proof (induction segs rule: joinLiterals.induct)
  case 1
  show ?case by (simp add: buildMessage_def)
next
  case (2 k segs)
  then have k: "k \<in> {0, 1, 2, 3}" by simp
  have "countCh (scan (buildMessage segs)) = literalLength segs" using 2 by simp
  then show ?case by (simp add: buildMessage_def scan_directive_append [OF k])
next
  case (3 a)
  then have "directiveFree a" by simp
  from scan_literal [OF this, of "[]"] show ?case
    using countCh_map_Ch [of a "[]"] by (simp add: buildMessage_def)
next
  case (4 a k segs)
  then have d: "directiveFree a" by simp
  have ih: "countCh (scan (buildMessage (Token k # segs))) = literalLength (Token k # segs)"
    using 4 by simp
  have "scan (a @ directive k @ buildMessage segs) =
          map Ch a @ scan (directive k @ buildMessage segs)"
    by (rule scan_literal [OF d]) blast
  with ih show ?case by (simp add: buildMessage_def countCh_map_Ch)
next
  case (5 a b segs)
  have "countCh (scan (buildMessage (Literal (a @ b) # segs))) = literalLength (Literal (a @ b) # segs)"
    using 5 by simp
  then show ?case by (simp add: buildMessage_def)
qed

section \<open>Counting the visible characters of a composed message\<close>

text \<open>
  Claim C8, as stated: a string built by concatenating directive-free literal segments and
  valid directive tokens has as many visible characters as its literal segments have
  bytes. This fails when two adjacent literal segments, each free of directives, join into
  a directive: \<open>^Cs\<close> followed by \<open>1;\<close> is the directive \<open>^Cs1;\<close>, which
  \<open>countVisibleChars\<close> skips, while the two literal segments have five bytes together.
\<close>

theorem countVisibleChars_split_directive:
  "directiveFree ''^Cs'' \<and> directiveFree ''1;''
   \<and> literalLength [Literal ''^Cs'', Literal ''1;''] = 5
   \<and> buildMessage [Literal ''^Cs'', Literal ''1;''] = ''^Cs1;''
   \<and> countVisibleChars (buildMessage [Literal ''^Cs'', Literal ''1;'']) = 0"
  by code_simp

text \<open>
  Claim C8, amended. Let a string be the concatenation of literal segments and directive
  tokens \<open>^Cs0;\<close> to \<open>^Cs3;\<close>, and let the literal text between two tokens (adjacent literal
  segments joined, which is what \<open>joinLiterals\<close> does) contain no directive. Then
  \<open>countVisibleChars\<close> returns exactly the total length of the literal segments.
\<close>

theorem countVisibleChars_built:
  assumes "\<forall>k. Token k \<in> set segs \<longrightarrow> k \<in> {0, 1, 2, 3}"
    and "\<forall>s. Literal s \<in> set (joinLiterals segs) \<longrightarrow> directiveFree s"
  shows "countVisibleChars (buildMessage segs) = literalLength segs"
  using count_built [OF assms] by (simp add: countVisibleChars_scan)

theorem countVisibleChars_built_witness:
  "countVisibleChars ''AB^Cs1;C^D^Cs0;^Cs3;EF'' = 7"
proof -
  let ?segs = "[Literal ''A'', Literal ''B'', Token 1, Literal ''C^D'', Token 0, Token 3, Literal ''EF'']"
  have a: "\<forall>k. Token k \<in> set ?segs \<longrightarrow> k \<in> {0, 1, 2, 3}" by simp
  have j: "joinLiterals ?segs =
      [Literal ''AB'', Token 1, Literal ''C^D'', Token 0, Token 3, Literal ''EF'']" by simp
  have d: "directiveFree ''AB''" "directiveFree ''C^D''" "directiveFree ''EF''" by code_simp+
  have b: "\<forall>s. Literal s \<in> set (joinLiterals ?segs) \<longrightarrow> directiveFree s"
    unfolding j using d by simp
  have m: "buildMessage ?segs = ''AB^Cs1;C^D^Cs0;^Cs3;EF''"
    by (simp add: buildMessage_def directive_def digit_def)
  from countVisibleChars_built [OF a b] show ?thesis unfolding m by simp
qed

lemma multipliers_ladder: "s \<in> multipliers \<Longrightarrow> s \<in> {1/4, 1/2, 1, 2, 3, 4}"
  by (induction rule: multipliers.induct) (auto simp: pressF1_def pressF2_def)

lemma multipliers_nonzero: "s \<in> multipliers \<Longrightarrow> s \<noteq> 0"
  using multipliers_ladder [of s] by auto

lemma speed_setSpeed:
  "actSize g \<in> {0, 1, 2, 3} \<Longrightarrow>
     speed (scrollText1 (setSpeed g)) = (if actSize g = 0 then 8 else if actSize g = 1 then 4
        else if actSize g = 2 then 2 else 1) * spinc g
   \<and> speed (scrollText2 (setSpeed g)) = (if actSize g = 0 then 16 else if actSize g = 1 then 8
        else if actSize g = 2 then 4 else 2) * spinc g
   \<and> speed (scrollText3 (setSpeed g)) = (if actSize g = 0 then 32 else if actSize g = 1 then 16
        else if actSize g = 2 then 8 else 4) * spinc g
   \<and> speed (scrollText4 (setSpeed g)) = (if actSize g = 0 then 64 else if actSize g = 1 then 32
        else if actSize g = 2 then 16 else 8) * spinc g"
  by (auto simp: setSpeed_def)

section \<open>Speed table\<close>

text \<open>
  Claim C5. For every active tier in 0 to 3, \<open>setSpeed\<close> stores the base row 8/16/32/64,
  4/8/16/32, 2/4/8/16 or 1/2/4/8 selected by the active tier, each entry scaled by the
  multiplier. The four speeds are therefore always in the ratio 1:2:4:8, and for every
  multiplier other than 0 the quotients \<open>speed4/speed1\<close>, \<open>speed3/speed1\<close> and
  \<open>speed2/speed1\<close> are 8, 4 and 2. The multiplier is never 0 in the program: it starts at 1
  and changes only by the two key rules of \<open>Update\<close>, which keep it on the ladder
  1/4, 1/2, 1, 2, 3, 4 (\<open>multipliers\<close> is the set of values reachable in this way).
\<close>

theorem setSpeed_ratio:
  assumes "actSize g \<in> {0, 1, 2, 3}"
  shows "(let s1 = speed (scrollText1 (setSpeed g)); s2 = speed (scrollText2 (setSpeed g));
              s3 = speed (scrollText3 (setSpeed g)); s4 = speed (scrollText4 (setSpeed g)) in
            (s1, s2, s3, s4) =
              (if actSize g = 0 then (8 * spinc g, 16 * spinc g, 32 * spinc g, 64 * spinc g)
               else if actSize g = 1 then (4 * spinc g, 8 * spinc g, 16 * spinc g, 32 * spinc g)
               else if actSize g = 2 then (2 * spinc g, 4 * spinc g, 8 * spinc g, 16 * spinc g)
               else (1 * spinc g, 2 * spinc g, 4 * spinc g, 8 * spinc g))
          \<and> s2 = 2 * s1 \<and> s3 = 4 * s1 \<and> s4 = 8 * s1
          \<and> (spinc g \<noteq> 0 \<longrightarrow> s4 / s1 = 8 \<and> s3 / s1 = 4 \<and> s2 / s1 = 2)
          \<and> (spinc g \<in> multipliers \<longrightarrow> s4 / s1 = 8 \<and> s3 / s1 = 4 \<and> s2 / s1 = 2))"
proof -
  note s = speed_setSpeed [OF assms]
  have "spinc g \<in> multipliers \<longrightarrow> spinc g \<noteq> 0" using multipliers_nonzero by blast
  then show ?thesis unfolding Let_def using s assms by auto
qed

theorem setSpeed_ratio_witness:
  "speed (scrollText1 (setSpeed ((NewGame ''AB'')\<lparr>actSize := 2, spinc := 3\<rparr>))) = 6
   \<and> speed (scrollText4 (setSpeed ((NewGame ''AB'')\<lparr>actSize := 2, spinc := 3\<rparr>)))
       / speed (scrollText1 (setSpeed ((NewGame ''AB'')\<lparr>actSize := 2, spinc := 3\<rparr>))) = 8"
proof -
  let ?g = "(NewGame ''AB'')\<lparr>actSize := 2, spinc := 3\<rparr>"
  have a: "actSize ?g \<in> {0, 1, 2, 3}" by simp
  have "pressF1 (pressF1 1) \<in> multipliers"
    by (intro multipliers.faster multipliers.initial)
  then have m: "spinc ?g \<in> multipliers" by (simp add: pressF1_def)
  from setSpeed_ratio [OF a] m show ?thesis unfolding Let_def by simp
qed

lemma draw_cases:
  "draw st =
     (if visibleChars st \<noteq> 0 \<and> totalWidthOf st > 0 \<and> offset st - speed st \<le> - totalWidthOf st
      then st\<lparr>offset := offset st - speed st + (totalWidthOf st + real_of_int (canvasDx st))\<rparr>
      else st\<lparr>offset := offset st - speed st\<rparr>)"
  by (simp add: draw_def totalWidthOf_def Let_def)

lemma draw_nowrap:
  assumes "0 \<le> speed st" "- totalWidthOf st < offset st - real n * speed st"
  shows "(draw ^^ n) st = st\<lparr>offset := offset st - real n * speed st\<rparr>"
  using assms(2)
proof (induction n)
  case 0
  show ?case by simp
next
  case (Suc n)
  have "offset st - real (Suc n) * speed st \<le> offset st - real n * speed st"
    using assms(1) by (simp add: algebra_simps)
  with Suc.prems have "- totalWidthOf st < offset st - real n * speed st" by linarith
  from Suc.IH [OF this] have n: "(draw ^^ n) st = st\<lparr>offset := offset st - real n * speed st\<rparr>" .
  have "(draw ^^ Suc n) st = draw (st\<lparr>offset := offset st - real n * speed st\<rparr>)"
    by (simp add: n)
  also have "\<dots> = st\<lparr>offset := offset st - real (Suc n) * speed st\<rparr>"
    using Suc.prems by (simp add: draw_cases totalWidthOf_def algebra_simps)
  finally show ?case .
qed


lemma scenarioTier_simps:
  "speed scenarioTier = 8" "offset scenarioTier = 640" "totalWidthOf scenarioTier = 400"
  "visibleChars scenarioTier = 10" "canvasDx scenarioTier = 640"
  by (simp_all add: scenarioTier_def totalWidthOf_def)

lemma scenarioTier_129:
  "(draw ^^ 129) scenarioTier = scenarioTier\<lparr>offset := - 392\<rparr>"
  using draw_nowrap [of scenarioTier 129] by (simp add: scenarioTier_simps)


section \<open>Advance and wraparound of the master tier\<close>

text \<open>
  Claim C3. \<open>ScrollText.draw\<close> first subtracts the speed from the offset. With a visible
  count of 0 nothing else happens. Otherwise, with
  \<open>totalWidth = visibleChars * tileW * scaleX\<close>, when \<open>totalWidth > 0\<close> and the new offset is
  at most \<open>- totalWidth\<close>, it adds \<open>totalWidth\<close> plus the canvas width to the offset. No other
  field changes. For the tier with tile width 40, scale 1, 10 visible characters and a
  canvas 640 wide, starting at offset 640 with speed 8: the total width is 400, after 129
  advances the offset is -392, and the 130th advance reaches -400, wraps and leaves the
  offset at exactly 640.
\<close>

theorem draw_advance:
  "draw st = st\<lparr>offset := offset (draw st)\<rparr>
   \<and> (visibleChars st = 0 \<longrightarrow> offset (draw st) = offset st - speed st)
   \<and> (visibleChars st \<noteq> 0 \<and> totalWidthOf st > 0 \<and> offset st - speed st \<le> - totalWidthOf st \<longrightarrow>
        offset (draw st) = offset st - speed st + (totalWidthOf st + real_of_int (canvasDx st)))
   \<and> (visibleChars st \<noteq> 0 \<and> \<not> (totalWidthOf st > 0 \<and> offset st - speed st \<le> - totalWidthOf st) \<longrightarrow>
        offset (draw st) = offset st - speed st)
   \<and> totalWidthOf st = real_of_int (visibleChars st) * real_of_int (tileW st) * scaleX st
   \<and> totalWidthOf scenarioTier = 400
   \<and> offset ((draw ^^ 129) scenarioTier) = - 392
   \<and> offset ((draw ^^ 130) scenarioTier) = 640"
proof -
  have "(draw ^^ 130) scenarioTier = draw ((draw ^^ 129) scenarioTier)"
  proof -
    have "(130::nat) = Suc 129" by simp
    then show ?thesis by (simp only: funpow.simps o_apply)
  qed
  then have "offset ((draw ^^ 130) scenarioTier) = 640"
    by (simp add: scenarioTier_129 draw_cases) (simp add: scenarioTier_def totalWidthOf_def)
  moreover have "offset ((draw ^^ 129) scenarioTier) = - 392" by (simp add: scenarioTier_129)
  ultimately show ?thesis
    by (simp add: scenarioTier_simps) (simp add: draw_cases totalWidthOf_def)
qed

theorem draw_advance_witness:
  "offset (draw (scenarioTier\<lparr>offset := - 392\<rparr>)) = 640
   \<and> offset (draw scenarioTier) = 632
   \<and> offset (draw (scenarioTier\<lparr>visibleChars := 0, offset := - 392\<rparr>)) = - 400"
proof -
  let ?a = "scenarioTier\<lparr>offset := - 392\<rparr>"
  let ?b = "scenarioTier\<lparr>visibleChars := 0, offset := - 392\<rparr>"
  have a: "visibleChars ?a \<noteq> 0 \<and> totalWidthOf ?a > 0 \<and> offset ?a - speed ?a \<le> - totalWidthOf ?a"
    by (simp add: scenarioTier_def totalWidthOf_def)
  have b: "visibleChars scenarioTier \<noteq> 0 \<and>
      \<not> (totalWidthOf scenarioTier > 0 \<and> offset scenarioTier - speed scenarioTier \<le> - totalWidthOf scenarioTier)"
    by (simp add: scenarioTier_simps)
  have c: "visibleChars ?b = 0" by simp
  from a draw_advance [of ?a] have "offset (draw ?a) = 640"
    by (simp add: scenarioTier_def totalWidthOf_def)
  moreover from b draw_advance [of scenarioTier] have "offset (draw scenarioTier) = 632"
    by (simp add: scenarioTier_simps)
  moreover from c draw_advance [of ?b] have "offset (draw ?b) = - 400"
    by (simp add: scenarioTier_def)
  ultimately show ?thesis by blast
qed


lemma totalWidthOf_offset [simp]: "totalWidthOf (st\<lparr>offset := x\<rparr>) = totalWidthOf st"
  by (simp add: totalWidthOf_def)



section \<open>Period of the wraparound\<close>




lemma setSpeed_lane_fields:
  "offset (scrollText1 (setSpeed g)) = offset (scrollText1 g)"
  "offset (scrollText2 (setSpeed g)) = offset (scrollText2 g)"
  "offset (scrollText3 (setSpeed g)) = offset (scrollText3 g)"
  "offset (scrollText4 (setSpeed g)) = offset (scrollText4 g)"
  "scaleX (scrollText2 (setSpeed g)) = scaleX (scrollText2 g)"
  "scaleX (scrollText3 (setSpeed g)) = scaleX (scrollText3 g)"
  "scaleX (scrollText4 (setSpeed g)) = scaleX (scrollText4 g)"
  "canvasDx (scrollText1 (setSpeed g)) = canvasDx (scrollText1 g)"
  by (simp_all add: setSpeed_def)

lemma updateActSizeFromScroll_offsets:
  "offset (scrollText1 (updateActSizeFromScroll g)) = offset (scrollText1 g)"
  "offset (scrollText2 (updateActSizeFromScroll g)) = offset (scrollText2 g)"
  "offset (scrollText3 (updateActSizeFromScroll g)) = offset (scrollText3 g)"
  "offset (scrollText4 (updateActSizeFromScroll g)) = offset (scrollText4 g)"
  by (simp_all add: updateActSizeFromScroll_def Let_def setSpeed_lane_fields)

lemma afterKeys_fields:
  "scaleX (scrollText2 (afterKeys g a b)) = scaleX (scrollText2 g)"
  "scaleX (scrollText3 (afterKeys g a b)) = scaleX (scrollText3 g)"
  "scaleX (scrollText4 (afterKeys g a b)) = scaleX (scrollText4 g)"
  "canvasDx (scrollText1 (afterKeys g a b)) = canvasDx (scrollText1 g)"
  by (simp_all add: afterKeys_def Let_def setSpeed_lane_fields)

lemma draw_keeps:
  "canvasDx (draw st) = canvasDx st" "scaleX (draw st) = scaleX st" "speed (draw st) = speed st"
  by (simp_all add: draw_def Let_def)

lemma Update_blocks:
  "Update g a b = updateActSizeFromScroll (scrollStep (tickCounters (afterKeys g a b)))"
  unfolding Update_def afterKeys_def tickCounters_def scrollStep_def Let_def by (rule refl)

lemma tickCounters_lanes:
  "scrollText1 (tickCounters g) = scrollText1 g" "scrollText2 (tickCounters g) = scrollText2 g"
  "scrollText3 (tickCounters g) = scrollText3 g" "scrollText4 (tickCounters g) = scrollText4 g"
  by (simp_all add: tickCounters_def Let_def)

lemma scrollStep_offsets:
  "scrollText1 (scrollStep g) = draw (scrollText1 g)"
  "offset (scrollText2 (scrollStep g)) =
     offset (draw (scrollText1 g)) * scaleX (scrollText2 g)
       + (1 - scaleX (scrollText2 g)) * real_of_int (canvasDx (scrollText1 g))"
  "offset (scrollText3 (scrollStep g)) =
     offset (draw (scrollText1 g)) * scaleX (scrollText3 g)
       + (1 - scaleX (scrollText3 g)) * real_of_int (canvasDx (scrollText1 g))"
  "offset (scrollText4 (scrollStep g)) =
     offset (draw (scrollText1 g)) * scaleX (scrollText4 g)
       + (1 - scaleX (scrollText4 g)) * real_of_int (canvasDx (scrollText1 g))"
  by (simp_all add: scrollStep_def Let_def drawAt_def draw_keeps)

lemma Update_offsets:
  "offset (scrollText1 (Update g a b)) = offset (draw (scrollText1 (afterKeys g a b)))"
  "offset (scrollText2 (Update g a b)) =
     offset (draw (scrollText1 (afterKeys g a b))) * scaleX (scrollText2 g)
       + (1 - scaleX (scrollText2 g)) * real_of_int (canvasDx (scrollText1 g))"
  "offset (scrollText3 (Update g a b)) =
     offset (draw (scrollText1 (afterKeys g a b))) * scaleX (scrollText3 g)
       + (1 - scaleX (scrollText3 g)) * real_of_int (canvasDx (scrollText1 g))"
  "offset (scrollText4 (Update g a b)) =
     offset (draw (scrollText1 (afterKeys g a b))) * scaleX (scrollText4 g)
       + (1 - scaleX (scrollText4 g)) * real_of_int (canvasDx (scrollText1 g))"
  by (simp_all only: Update_blocks updateActSizeFromScroll_offsets scrollStep_offsets
        tickCounters_lanes afterKeys_fields)

lemma setSpeed_keeps:
  "actSize (setSpeed g) = actSize g" "spinc (setSpeed g) = spinc g"
  by (simp_all add: setSpeed_def)

lemma setSpeed_master:
  "scrollText1 (setSpeed g) =
     (if actSize g = 0 then (scrollText1 g)\<lparr>speed := 8 * spinc g\<rparr>
      else if actSize g = 1 then (scrollText1 g)\<lparr>speed := 4 * spinc g\<rparr>
      else if actSize g = 2 then (scrollText1 g)\<lparr>speed := 2 * spinc g\<rparr>
      else if actSize g = 3 then (scrollText1 g)\<lparr>speed := 1 * spinc g\<rparr>
      else scrollText1 g)"
  by (simp add: setSpeed_def)

lemma afterKeys_master:
  "scrollText1 (afterKeys g a b) =
     (if a \<or> b then scrollText1 (setSpeed (g\<lparr>spinc :=
         (if b then pressF2 (if a then pressF1 (spinc g) else spinc g) else pressF1 (spinc g))\<rparr>))
      else scrollText1 g)"
  by (simp add: afterKeys_def Let_def setSpeed_master setSpeed_keeps)

lemma afterKeys_master_independent:
  "scrollText1 (afterKeys (g\<lparr>scrollText2 := s2, scrollText3 := s3, scrollText4 := s4\<rparr>) a b)
     = scrollText1 (afterKeys g a b)"
  by (simp add: afterKeys_master setSpeed_master)

section \<open>Follower tiers are driven from the master's offset\<close>

text \<open>
  Claim C6. \<open>drawAt\<close> sets the lane's offset to its argument and changes nothing else: the
  speed is kept and there is no wrap check. In \<open>Update\<close> only the master lane
  \<open>scrollText1\<close> advances by \<open>draw\<close> (after the key handling, whose result is \<open>afterKeys\<close>);
  each follower lane \<open>k\<close> of 2, 3, 4 then gets the offset
  \<open>masterOffset * scaleX_k + (1 - scaleX_k) * masterCanvasWidth\<close>, where \<open>masterOffset\<close> is the
  master's offset after its advance, and the resolver that runs last leaves all offsets
  alone. A follower's offset after the tick depends neither on its previous offset nor on
  its speed: replacing the three follower lanes by lanes with the same scale factors (and
  any offsets and speeds) gives the same follower offsets.
\<close>

theorem followers_phase_locked:
  "drawAt st off = st\<lparr>offset := off\<rparr>
   \<and> speed (drawAt st off) = speed st
   \<and> (let g' = Update g keyF1 keyF2;
            masterOffset = offset (scrollText1 g');
            masterWidth = real_of_int (canvasDx (scrollText1 g)) in
          masterOffset = offset (draw (scrollText1 (afterKeys g keyF1 keyF2)))
        \<and> offset (scrollText2 g') =
            masterOffset * scaleX (scrollText2 g) + (1 - scaleX (scrollText2 g)) * masterWidth
        \<and> offset (scrollText3 g') =
            masterOffset * scaleX (scrollText3 g) + (1 - scaleX (scrollText3 g)) * masterWidth
        \<and> offset (scrollText4 g') =
            masterOffset * scaleX (scrollText4 g) + (1 - scaleX (scrollText4 g)) * masterWidth)
   \<and> (scaleX s2 = scaleX (scrollText2 g) \<and> scaleX s3 = scaleX (scrollText3 g)
        \<and> scaleX s4 = scaleX (scrollText4 g) \<longrightarrow>
        (let h = Update (g\<lparr>scrollText2 := s2, scrollText3 := s3, scrollText4 := s4\<rparr>) keyF1 keyF2;
             g' = Update g keyF1 keyF2 in
           offset (scrollText1 h) = offset (scrollText1 g')
         \<and> offset (scrollText2 h) = offset (scrollText2 g')
         \<and> offset (scrollText3 h) = offset (scrollText3 g')
         \<and> offset (scrollText4 h) = offset (scrollText4 g')))"
  unfolding Let_def Update_offsets afterKeys_master_independent
  by (simp add: drawAt_def)

theorem followers_phase_locked_witness:
  "offset (scrollText1 (Update (NewGame ''AB^Cs1;CD^Cs0;EF'') False False)) = 632
   \<and> offset (scrollText2 (Update (NewGame ''AB^Cs1;CD^Cs0;EF'') False False)) = 624
   \<and> offset (scrollText3 (Update (NewGame ''AB^Cs1;CD^Cs0;EF'') False False)) = 608
   \<and> offset (scrollText4 (Update (NewGame ''AB^Cs1;CD^Cs0;EF'') False False)) = 576"
proof -
  let ?g = "NewGame ''AB^Cs1;CD^Cs0;EF''"
  have c: "countVisibleChars ''AB^Cs1;CD^Cs0;EF'' = 6" by code_simp
  have m: "scrollText1 (afterKeys ?g False False) = scrollText1 ?g"
    by (simp add: afterKeys_def)
  have v: "visibleChars (scrollText1 ?g) = 6"
    by (simp add: visibleChars_NewGame countVisibleChars_rebuildText_aux c)
  have f: "offset (scrollText1 ?g) = 640" "speed (scrollText1 ?g) = 8"
    "tileW (scrollText1 ?g) = 40" "scaleX (scrollText1 ?g) = 1" "canvasDx (scrollText1 ?g) = 640"
    "scaleX (scrollText2 ?g) = 2" "scaleX (scrollText3 ?g) = 4" "scaleX (scrollText4 ?g) = 8"
    by (simp_all add: NewGame_def setSpeed_def newScrollText_def Let_def split: prod.split)
  have d: "offset (draw (scrollText1 ?g)) = 632"
    by (simp add: draw_def Let_def v f)
  from followers_phase_locked [of _ _ ?g False False]
  show ?thesis unfolding Let_def m d f by simp
qed

lemma glyphPosOf_eq: "glyphPosOf st n = resolverGlyphPos st n"
  by (simp add: glyphPosOf_def resolverGlyphPos_def Let_def max_def min_def)

lemma fontChanges_loop_sorted:
  "sorted (map position cs) \<Longrightarrow>
     fontChanges_loop cs p sz =
       (case filter (\<lambda>c. position c \<le> p) cs of [] \<Rightarrow> sz | e # es \<Rightarrow> newSize (last (e # es)))"
proof (induction cs arbitrary: sz)
  case Nil
  show ?case by simp
next
  case (Cons c cs)
  then have s: "sorted (map position cs)" and le: "\<forall>d \<in> set cs. position c \<le> position d"
    by simp_all
  show ?case
  proof (cases "position c \<le> p")
    case True
    with Cons.IH [OF s, of "newSize c"] show ?thesis
      by (simp split: list.split)
  next
    case False
    with le have "filter (\<lambda>d. position d \<le> p) cs = []"
      by (auto simp: filter_empty_conv)
    with False show ?thesis by simp
  qed
qed

lemma sorted_changesOf: "sorted (map position (changesOf g xs))"
proof (induction g xs rule: changesOf.induct)
  case (2 g k xs)
  then show ?case using changesOf_ge [of _ g xs] by auto
qed simp_all

lemma sorted_preAnalyzeFontChanges: "sorted (map position (fst (preAnalyzeFontChanges msg)))"
  by (simp add: preAnalyzeFontChanges_scan sorted_changesOf)

lemma om_pre: "preAnalyzeFontChanges oscillatingMessage = ([\<lparr>position = 12, newSize = 1\<rparr>], 18)"
  unfolding oscillatingMessage_def by code_simp

lemma om_count: "countVisibleChars oscillatingMessage = 18"
  unfolding oscillatingMessage_def by code_simp

lemma om_new:
  "NewGame oscillatingMessage =
     \<lparr>scrollText1 = \<lparr>canvasDx = 640, text = rebuildText oscillatingMessage 0 True, speed = 8,
                      offset = 640, tileW = 40, tileH = 32, scaleX = 1, scaleY = 1, visibleChars = 18\<rparr>,
      scrollText2 = \<lparr>canvasDx = 640, text = rebuildText oscillatingMessage 1 False, speed = 16,
                      offset = 640, tileW = 40, tileH = 32, scaleX = 2, scaleY = 2, visibleChars = 18\<rparr>,
      scrollText3 = \<lparr>canvasDx = 640, text = rebuildText oscillatingMessage 2 False, speed = 32,
                      offset = 640, tileW = 40, tileH = 32, scaleX = 4, scaleY = 4, visibleChars = 18\<rparr>,
      scrollText4 = \<lparr>canvasDx = 640, text = rebuildText oscillatingMessage 3 False, speed = 64,
                      offset = 640, tileW = 40, tileH = 32, scaleX = 8, scaleY = 12, visibleChars = 18\<rparr>,
      vbl = 0, posY = 0, posY2 = 200, actSize = 0, spinc = 1,
      fullText = oscillatingMessage, fontChanges = [\<lparr>position = 12, newSize = 1\<rparr>],
      totalGlyphs = 18\<rparr>"
  by (simp add: NewGame_def om_pre newScrollText_def setSpeed_def
        countVisibleChars_rebuildText_aux om_count)

lemma om_tick1: "Update (NewGame oscillatingMessage) False False = firstTick"
proof -
  let ?g = "NewGame oscillatingMessage"
  have k: "afterKeys ?g False False = ?g" by (simp add: afterKeys_def)
  have c: "tickCounters ?g = ?g\<lparr>vbl := 1\<rparr>"
    by (simp add: tickCounters_def Let_def om_new)
  have s: "scrollStep (?g\<lparr>vbl := 1\<rparr>) =
      ?g\<lparr>vbl := 1,
         scrollText1 := (scrollText1 ?g)\<lparr>offset := 632\<rparr>,
         scrollText2 := (scrollText2 ?g)\<lparr>offset := 624\<rparr>,
         scrollText3 := (scrollText3 ?g)\<lparr>offset := 608\<rparr>,
         scrollText4 := (scrollText4 ?g)\<lparr>offset := 576\<rparr>\<rparr>"
    by (simp add: scrollStep_def Let_def om_new draw_def drawAt_def)
  have r: "updateActSizeFromScroll
      (?g\<lparr>vbl := 1,
         scrollText1 := (scrollText1 ?g)\<lparr>offset := 632\<rparr>,
         scrollText2 := (scrollText2 ?g)\<lparr>offset := 624\<rparr>,
         scrollText3 := (scrollText3 ?g)\<lparr>offset := 608\<rparr>,
         scrollText4 := (scrollText4 ?g)\<lparr>offset := 576\<rparr>\<rparr>) = firstTick"
    by (simp add: om_new updateActSizeFromScroll_def glyphPosOf_def Let_def setSpeed_def
          firstTick_def)
  show ?thesis by (simp only: Update_blocks k c s r)
qed

lemma om_tick2: "Update firstTick False False = updateActSizeFromScroll secondTickInput"
proof -
  have k: "afterKeys firstTick False False = firstTick" by (simp add: afterKeys_def)
  have c: "tickCounters firstTick = firstTick\<lparr>vbl := 2, posY := 4, posY2 := 198\<rparr>"
    by (simp add: tickCounters_def Let_def firstTick_def)
  have s: "scrollStep (firstTick\<lparr>vbl := 2, posY := 4, posY2 := 198\<rparr>) = secondTickInput"
    by (simp add: scrollStep_def Let_def firstTick_def secondTickInput_def draw_def drawAt_def)
  show ?thesis by (simp only: Update_blocks k c s)
qed

lemma updateActSizeFromScroll_lane:
  "updateActSizeFromScroll g =
     (if totalGlyphs g = 0 \<or> real_of_int (tileW (activeLane g)) * scaleX (activeLane g) \<le> 0 then g
      else let tier = fontChanges_loop (fontChanges g)
                        (resolverGlyphPos (activeLane g) (totalGlyphs g)) 0
           in if tier \<noteq> actSize g then setSpeed (g\<lparr>actSize := tier\<rparr>) else g)"
  by (simp add: updateActSizeFromScroll_def activeLane_def glyphPosOf_eq Let_def)

lemma fontChanges_loop_lastEntryTier:
  "sorted (map position cs) \<Longrightarrow> fontChanges_loop cs p 0 = lastEntryTier cs p"
  by (simp add: fontChanges_loop_sorted lastEntryTier_def)

section \<open>Tier activity resolver\<close>

text \<open>
  Claim C1, as stated: the resolver computes the glyph position from the master tier
  (\<open>scrollText1\<close>). The code reads the lane selected by the stored active tier instead. On
  the message \<open>ABCDEFGHIJKL^Cs1;MNOPQR\<close> the first tick switches the active tier to 1.
  In the second tick the master stands at offset 628, from which the claim's formula gives
  glyph position 17 and tier 1, the stored tier, so nothing should change; but the code
  reads \<open>scrollText2\<close> (offset 616, tiles 80 wide), gets glyph position 9 and tier 0, and
  switches the active tier to 0.
\<close>

theorem resolver_reads_active_lane:
  "Update (NewGame oscillatingMessage) False False = firstTick
   \<and> Update firstTick False False = updateActSizeFromScroll secondTickInput
   \<and> actSize secondTickInput = 1
   \<and> offset (scrollText1 secondTickInput) = 628
   \<and> resolverGlyphPos (scrollText1 secondTickInput) (totalGlyphs secondTickInput) = 17
   \<and> lastEntryTier (fontChanges secondTickInput) 17 = 1
   \<and> offset (scrollText2 secondTickInput) = 616
   \<and> resolverGlyphPos (scrollText2 secondTickInput) (totalGlyphs secondTickInput) = 9
   \<and> lastEntryTier (fontChanges secondTickInput) 9 = 0
   \<and> actSize (updateActSizeFromScroll secondTickInput) = 0"
proof -
  have "actSize (updateActSizeFromScroll secondTickInput) = 0"
    by (simp add: updateActSizeFromScroll_def glyphPosOf_def Let_def setSpeed_def
          secondTickInput_def)
  moreover have "resolverGlyphPos (scrollText1 secondTickInput) (totalGlyphs secondTickInput) = 17"
    "resolverGlyphPos (scrollText2 secondTickInput) (totalGlyphs secondTickInput) = 9"
    by (simp_all add: resolverGlyphPos_def secondTickInput_def Let_def)
  moreover have "lastEntryTier (fontChanges secondTickInput) 17 = 1"
    "lastEntryTier (fontChanges secondTickInput) 9 = 0"
    by (simp_all add: lastEntryTier_def secondTickInput_def)
  ultimately show ?thesis
    by (simp add: om_tick1 om_tick2) (simp add: secondTickInput_def)
qed

text \<open>
  Claim C1, amended. The resolver reads the lane selected by the stored active tier
  (\<open>activeLane\<close>: \<open>scrollText2\<close>, \<open>scrollText3\<close>, \<open>scrollText4\<close> for tiers 1, 2, 3 and the
  master \<open>scrollText1\<close> otherwise). When the total glyph count is not 0 and that lane's
  \<open>tileW * scaleX\<close> is positive, it computes from that lane's offset and tile geometry
  \<open>leftGlyph = floor(-offset / (tileW * scaleX))\<close> clamped to at least 0,
  \<open>visibleGlyphs = ceil(canvasWidth / (tileW * scaleX)) + 1\<close> and
  \<open>glyphPos = min(leftGlyph + visibleGlyphs, totalGlyphs - 1)\<close>; on an index with
  non-decreasing positions, as \<open>preAnalyzeFontChanges\<close> always builds, it resolves the tier
  of the last entry whose position is at most \<open>glyphPos\<close>, or tier 0 when there is none.
  When that tier differs from the stored active tier, the stored tier is updated and
  \<open>setSpeed\<close> recomputes the four speeds; otherwise, and when a guard fails, the game is
  unchanged. For the index \<open>[(2,1),(4,0)]\<close> of \<open>AB^Cs1;CD^Cs0;EF\<close> with 6 glyphs, the lookup
  gives tier 1 at glyph 3, tier 0 at glyph 5 and the default tier 0 at glyph 0.
\<close>

theorem resolver_step:
  "(totalGlyphs g \<noteq> 0 \<and> 0 < real_of_int (tileW (activeLane g)) * scaleX (activeLane g)
      \<and> sorted (map position (fontChanges g)) \<longrightarrow>
      (let st = activeLane g;
           w = real_of_int (tileW st) * scaleX st;
           leftGlyph = max 0 \<lfloor>- offset st / w\<rfloor>;
           visibleGlyphs = \<lceil>real_of_int (canvasDx st) / w\<rceil> + 1;
           glyphPos = min (leftGlyph + visibleGlyphs) (totalGlyphs g - 1);
           tier = lastEntryTier (fontChanges g) glyphPos
       in updateActSizeFromScroll g =
            (if tier \<noteq> actSize g then setSpeed (g\<lparr>actSize := tier\<rparr>) else g)))
   \<and> (totalGlyphs g = 0 \<or> real_of_int (tileW (activeLane g)) * scaleX (activeLane g) \<le> 0 \<longrightarrow>
        updateActSizeFromScroll g = g)
   \<and> (actSize g = 1 \<longrightarrow> activeLane g = scrollText2 g)
   \<and> (actSize g = 2 \<longrightarrow> activeLane g = scrollText3 g)
   \<and> (actSize g = 3 \<longrightarrow> activeLane g = scrollText4 g)
   \<and> (actSize g \<notin> {1, 2, 3} \<longrightarrow> activeLane g = scrollText1 g)
   \<and> sorted (map position (fst (preAnalyzeFontChanges msg)))
   \<and> preAnalyzeFontChanges ''AB^Cs1;CD^Cs0;EF'' =
         ([\<lparr>position = 2, newSize = 1\<rparr>, \<lparr>position = 4, newSize = 0\<rparr>], 6)
   \<and> fontChanges_loop [\<lparr>position = 2, newSize = 1\<rparr>, \<lparr>position = 4, newSize = 0\<rparr>] 3 0 = 1
   \<and> fontChanges_loop [\<lparr>position = 2, newSize = 1\<rparr>, \<lparr>position = 4, newSize = 0\<rparr>] 5 0 = 0
   \<and> fontChanges_loop [\<lparr>position = 2, newSize = 1\<rparr>, \<lparr>position = 4, newSize = 0\<rparr>] 0 0 = 0"
proof (intro conjI impI)
  assume a: "totalGlyphs g \<noteq> 0 \<and> 0 < real_of_int (tileW (activeLane g)) * scaleX (activeLane g)
      \<and> sorted (map position (fontChanges g))"
  then have l: "fontChanges_loop (fontChanges g) p 0 = lastEntryTier (fontChanges g) p" for p
    by (simp add: fontChanges_loop_lastEntryTier)
  from a show "(let st = activeLane g;
           w = real_of_int (tileW st) * scaleX st;
           leftGlyph = max 0 \<lfloor>- offset st / w\<rfloor>;
           visibleGlyphs = \<lceil>real_of_int (canvasDx st) / w\<rceil> + 1;
           glyphPos = min (leftGlyph + visibleGlyphs) (totalGlyphs g - 1);
           tier = lastEntryTier (fontChanges g) glyphPos
       in updateActSizeFromScroll g =
            (if tier \<noteq> actSize g then setSpeed (g\<lparr>actSize := tier\<rparr>) else g))"
    by (simp add: updateActSizeFromScroll_lane [of g] l resolverGlyphPos_def Let_def)
next
  assume "totalGlyphs g = 0 \<or> real_of_int (tileW (activeLane g)) * scaleX (activeLane g) \<le> 0"
  then show "updateActSizeFromScroll g = g"
    by (auto simp: updateActSizeFromScroll_lane [of g])
next
  show "sorted (map position (fst (preAnalyzeFontChanges msg)))"
    by (rule sorted_preAnalyzeFontChanges)
  show "preAnalyzeFontChanges ''AB^Cs1;CD^Cs0;EF'' =
         ([\<lparr>position = 2, newSize = 1\<rparr>, \<lparr>position = 4, newSize = 0\<rparr>], 6)"
    by code_simp
qed (simp_all add: activeLane_def)

theorem resolver_step_witness:
  "updateActSizeFromScroll secondTickInput = setSpeed (secondTickInput\<lparr>actSize := 0\<rparr>)
   \<and> updateActSizeFromScroll (secondTickInput\<lparr>totalGlyphs := 0\<rparr>) = secondTickInput\<lparr>totalGlyphs := 0\<rparr>"
proof -
  let ?g = secondTickInput
  have f: "actSize ?g = 1" "totalGlyphs ?g = 18" "activeLane ?g = scrollText2 ?g"
    "tileW (scrollText2 ?g) = 40" "scaleX (scrollText2 ?g) = 2" "offset (scrollText2 ?g) = 616"
    "canvasDx (scrollText2 ?g) = 640" "fontChanges ?g = [\<lparr>position = 12, newSize = 1\<rparr>]"
    by (simp_all add: secondTickInput_def activeLane_def)
  have h: "totalGlyphs ?g \<noteq> 0 \<and> 0 < real_of_int (tileW (activeLane ?g)) * scaleX (activeLane ?g)
      \<and> sorted (map position (fontChanges ?g))"
    by (simp add: f)
  have t: "lastEntryTier [\<lparr>position = 12, newSize = 1\<rparr>] 9 = 0" by (simp add: lastEntryTier_def)
  from resolver_step [of ?g, THEN conjunct1] h
  have a: "updateActSizeFromScroll ?g = setSpeed (?g\<lparr>actSize := 0\<rparr>)"
    unfolding Let_def f by (simp add: t)
  have "totalGlyphs (?g\<lparr>totalGlyphs := 0\<rparr>) = 0" by simp
  with resolver_step [of "?g\<lparr>totalGlyphs := 0\<rparr>", THEN conjunct2, THEN conjunct1]
  have b: "updateActSizeFromScroll (?g\<lparr>totalGlyphs := 0\<rparr>) = ?g\<lparr>totalGlyphs := 0\<rparr>"
    by blast
  from a b show ?thesis by blast
qed

end
